theory Spec2Isabelle
  imports Complex_Main "HOL-Library.AList"
begin

section \<open>Graph model\<close>

text \<open>
  The editor keeps React Flow nodes and edges.  Only the fields that the editor and the
  validation hook read are modelled: a node's \<open>id\<close>, its \<open>selected\<close> flag, its
  \<open>position\<close> and the \<open>label\<close> of its data; an edge's \<open>source\<close>, \<open>target\<close> and
  \<open>selected\<close> flag.  Identifiers are strings, as in the source.
\<close>

record node =
  node_id :: string
  node_selected :: bool
  position :: "real \<times> real"
  label :: string

record edge =
  source :: string
  target :: string
  edge_selected :: bool

text \<open>
  The \<open>Connection\<close> handed to \<open>isValidConnection\<close> and \<open>onConnect\<close>.  The handlers use
  its \<open>source\<close> and \<open>target\<close> as strings (non-null assertions), and so does the model.
\<close>

record connection =
  conn_source :: string
  conn_target :: string

text \<open>\<open>GraphValidation\<close> of \<open>types/graph.ts\<close>.\<close>

record GraphValidation =
  isValid :: bool
  errors :: "string list"
  warnings :: "string list"

section \<open>Cycle detection by depth-first search\<close>

text \<open>
  \<open>adjacencyList\<close> is a JavaScript \<open>Map<string, string[]>\<close>.  It is modelled as an
  association list: \<open>Map.set\<close> is \<open>AList.update\<close> (an existing key keeps its place, a
  new key is appended) and \<open>adjacencyList.get(k) || []\<close> is \<open>adj_get\<close>.
\<close>

type_synonym adjacency = "(string \<times> string list) list"

definition adj_get :: "adjacency \<Rightarrow> string \<Rightarrow> string list" where
  "adj_get adjacencyList k = (case map_of adjacencyList k of Some ns \<Rightarrow> ns | None \<Rightarrow> [])"

text \<open>
  The adjacency list is built in two passes, as in the source: every node id is mapped to
  the empty array, then every edge pushes its target onto the array of its source.
\<close>

definition push_edge :: "string \<Rightarrow> string \<Rightarrow> adjacency \<Rightarrow> adjacency" where
  "push_edge src tgt adjacencyList =
     AList.update src (adj_get adjacencyList src @ [tgt]) adjacencyList"

definition buildAdjacencyList :: "node list \<Rightarrow> edge list \<Rightarrow> adjacency" where
  "buildAdjacencyList nodes edges =
     fold (\<lambda>edge adjacencyList. push_edge (source edge) (target edge) adjacencyList) edges
       (fold (\<lambda>node adjacencyList. AList.update (node_id node) [] adjacencyList) nodes [])"

definition adj_targets :: "adjacency \<Rightarrow> string set" where
  "adj_targets adjacencyList = (\<Union>kv \<in> set adjacencyList. set (snd kv))"

text \<open>
  The recursive \<open>dfs\<close> closure mutates the two sets \<open>visited\<close> and \<open>recStack\<close>; here
  the pair of sets is passed in and returned together with the boolean result.
  \<open>dfs_for\<close> is the \<open>for (const neighbor of neighbors)\<close> loop inside \<open>dfs\<close>.  A
  \<open>return true\<close> leaves the sets as they are at that moment (\<open>recStack.delete\<close> is
  skipped).  The same closure text occurs in \<open>useDAGValidation\<close> (\<open>hasCycle\<close>) and in
  \<open>isValidConnection\<close> (\<open>wouldCreateCycle\<close>).
\<close>

function (sequential) dfs ::
    "adjacency \<Rightarrow> string \<Rightarrow> string set \<times> string set \<Rightarrow> bool \<times> string set \<times> string set"
  and dfs_for ::
    "adjacency \<Rightarrow> string list \<Rightarrow> string set \<times> string set \<Rightarrow> bool \<times> string set \<times> string set"
where
  "dfs adjacencyList nodeId (visited, recStack) =
     (let (found, (visited', recStack')) =
            dfs_for adjacencyList (adj_get adjacencyList nodeId)
              (insert nodeId visited, insert nodeId recStack)
      in if found then (True, (visited', recStack'))
         else (False, (visited', recStack' - {nodeId})))"
| "dfs_for adjacencyList [] st = (False, st)"
| "dfs_for adjacencyList (neighbor # rest) (visited, recStack) =
     (if neighbor \<notin> visited then
        (let (found, st') = dfs adjacencyList neighbor (visited, recStack)
         in if found then (True, st') else dfs_for adjacencyList rest st')
      else if neighbor \<in> recStack then (True, (visited, recStack))
      else dfs_for adjacencyList rest (visited, recStack))"
  by pat_completeness auto

text \<open>
  Termination: every recursive \<open>dfs\<close> call is on a target of the adjacency list that is
  not yet visited, and the visited set only grows.
\<close>

lemma adj_get_targets: "set (adj_get adjacencyList k) \<subseteq> adj_targets adjacencyList"
proof (cases "map_of adjacencyList k")
  case None
  then show ?thesis by (simp add: adj_get_def)
next
  case (Some ns)
  then have "(k, ns) \<in> set adjacencyList" by (rule map_of_SomeD)
  with Some show ?thesis by (force simp: adj_get_def adj_targets_def)
qed

lemma finite_adj_targets: "finite (adj_targets adjacencyList)"
  by (simp add: adj_targets_def)

lemma dfs_visited_mono_dom:
  "dfs_dfs_for_dom (Inl (adjacencyList, nodeId, st)) \<Longrightarrow>
     fst st \<subseteq> fst (snd (dfs adjacencyList nodeId st))"
  "dfs_dfs_for_dom (Inr (adjacencyList, ns, st)) \<Longrightarrow>
     fst st \<subseteq> fst (snd (dfs_for adjacencyList ns st))"
proof (induction adjacencyList nodeId st and adjacencyList ns st rule: dfs_dfs_for.pinduct)
  case (1 adjacencyList nodeId visited recStack)
  then show ?case
    by (auto simp: dfs.psimps split: prod.splits)
next
  case (2 adjacencyList st)
  then show ?case by (simp add: dfs_for.psimps)
next
  case (3 adjacencyList neighbor rest visited recStack)
  show ?case
  proof (cases "neighbor \<in> visited")
    case True
    with 3 show ?thesis by (auto simp: dfs_for.psimps)
  next
    case False
    obtain found st' where r: "dfs adjacencyList neighbor (visited, recStack) = (found, st')"
      by (cases "dfs adjacencyList neighbor (visited, recStack)")
    from 3(2)[OF False] r have m1: "visited \<subseteq> fst st'" by simp
    show ?thesis
    proof (cases found)
      case True
      with 3(1) False r m1 show ?thesis by (simp add: dfs_for.psimps)
    next
      case False2: False
      from 3(3)[OF False r[symmetric] refl] False2 r
      have "fst st' \<subseteq> fst (snd (dfs_for adjacencyList rest st'))"
        by (cases st') auto
      with 3(1) False r m1 False2 show ?thesis by (auto simp: dfs_for.psimps)
    qed
  qed
qed

termination dfs
proof (relation "inv_image (less_than <*lex*> less_than <*lex*> less_than)
    (\<lambda>x. case x of
        Inl (adjacencyList, nodeId, visited, recStack) \<Rightarrow>
          (card (adj_targets adjacencyList - insert nodeId visited), Suc 0, 0)
      | Inr (adjacencyList, ns, visited, recStack) \<Rightarrow>
          (card ((adj_targets adjacencyList \<union> set ns) - visited), 0, length ns))",
    goal_cases)
  case 1
  show ?case by (intro wf_inv_image wf_lex_prod wf_less_than)
next
  case (2 adjacencyList nodeId visited recStack)
  have "adj_targets adjacencyList \<union> set (adj_get adjacencyList nodeId) = adj_targets adjacencyList"
    using adj_get_targets[of adjacencyList nodeId] by auto
  then show ?case by simp
next
  case (3 adjacencyList neighbor rest visited recStack)
  have "adj_targets adjacencyList - insert neighbor visited
          \<subset> (adj_targets adjacencyList \<union> set (neighbor # rest)) - visited"
    using 3 by auto
  then have "card (adj_targets adjacencyList - insert neighbor visited)
          < card ((adj_targets adjacencyList \<union> set (neighbor # rest)) - visited)"
    by (intro psubset_card_mono) (simp_all add: finite_adj_targets)
  then show ?case by simp
next
  case (4 adjacencyList neighbor rest visited recStack x xa y)
  from dfs_visited_mono_dom(1)[OF 4(5)] 4(2,3) have "visited \<subseteq> fst y"
    by (metis fst_conv snd_conv)
  then have "(adj_targets adjacencyList \<union> set rest) - fst y
          \<subseteq> (adj_targets adjacencyList \<union> set (neighbor # rest)) - visited"
    by auto
  then have "card ((adj_targets adjacencyList \<union> set rest) - fst y)
          \<le> card ((adj_targets adjacencyList \<union> set (neighbor # rest)) - visited)"
    by (intro card_mono) (simp_all add: finite_adj_targets)
  then show ?case by (cases y) auto
next
  case (5 adjacencyList neighbor rest visited recStack)
  have "card ((adj_targets adjacencyList \<union> set rest) - visited)
          \<le> card ((adj_targets adjacencyList \<union> set (neighbor # rest)) - visited)"
    by (intro card_mono) (auto simp: finite_adj_targets)
  then show ?case by auto
qed

declare dfs.simps [simp del]


definition adj_rel :: "adjacency \<Rightarrow> (string \<times> string) set" where
  "adj_rel adjacencyList = {(a, b). b \<in> set (adj_get adjacencyList a)}"

definition safe :: "(string \<times> string) set \<Rightarrow> string set \<Rightarrow> bool" where
  "safe E B \<longleftrightarrow> E `` B \<subseteq> B \<and> (\<forall>b\<in>B. (b, b) \<notin> E\<^sup>+)"

definition dfs_pre :: "(string \<times> string) set \<Rightarrow> string set \<Rightarrow> string set \<times> string set \<Rightarrow> bool" where
  "dfs_pre E S st \<longleftrightarrow> snd st \<subseteq> fst st \<and> E `` S \<subseteq> S \<and> safe E (fst st - snd st)"

definition dfs_post ::
  "(string \<times> string) set \<Rightarrow> string set \<Rightarrow> string set \<times> string set \<Rightarrow>
   bool \<times> string set \<times> string set \<Rightarrow> bool" where
  "dfs_post E S st res \<longleftrightarrow>
     (if fst res then (\<exists>x\<in>S. (x, x) \<in> E\<^sup>+)
      else fst st \<subseteq> fst (snd res) \<and> snd (snd res) = snd st \<and>
           safe E (fst (snd res) - snd st))"

lemma safe_insert:
  assumes "safe E B" and "E `` {n} \<subseteq> B" and "n \<notin> B"
  shows "safe E (insert n B)"
proof -
  from assms(1) have cl: "E `` B \<subseteq> B" by (simp add: safe_def)
  have "(n, n) \<notin> E\<^sup>+"
  proof
    assume "(n, n) \<in> E\<^sup>+"
    then obtain c where c: "(n, c) \<in> E" "(c, n) \<in> E\<^sup>*" by (meson tranclD)
    from c(1) assms(2) have "c \<in> B" by auto
    with c(2) have "n \<in> E\<^sup>* `` B" by auto
    with cl have "n \<in> B" by (simp add: Image_closed_trancl)
    with assms(3) show False by simp
  qed
  with assms show ?thesis by (auto simp: safe_def)
qed

lemma dfs_correct:
  "dfs_pre (adj_rel adjacencyList) S st \<Longrightarrow> nodeId \<notin> fst st \<Longrightarrow>
   (\<forall>r\<in>snd st. (r, nodeId) \<in> (adj_rel adjacencyList)\<^sup>*) \<Longrightarrow> nodeId \<in> S \<Longrightarrow>
     dfs_post (adj_rel adjacencyList) S st (dfs adjacencyList nodeId st) \<and>
     (\<not> fst (dfs adjacencyList nodeId st) \<longrightarrow>
        nodeId \<in> fst (snd (dfs adjacencyList nodeId st)))"
  "dfs_pre (adj_rel adjacencyList) S st \<Longrightarrow>
   (\<forall>m\<in>set ns. \<forall>r\<in>snd st. (r, m) \<in> (adj_rel adjacencyList)\<^sup>+) \<Longrightarrow> set ns \<subseteq> S \<Longrightarrow>
     dfs_post (adj_rel adjacencyList) S st (dfs_for adjacencyList ns st) \<and>
     (\<not> fst (dfs_for adjacencyList ns st) \<longrightarrow>
        set ns \<subseteq> fst (snd (dfs_for adjacencyList ns st)) - snd st)"
proof (induction adjacencyList nodeId st and adjacencyList ns st rule: dfs_dfs_for.induct)
  case (1 adjacencyList nodeId visited recStack)
  let ?E = "adj_rel adjacencyList"
  let ?ns = "adj_get adjacencyList nodeId"
  let ?st1 = "(insert nodeId visited, insert nodeId recStack)"
  from "1.prems" have sub: "recStack \<subseteq> visited" and cl: "?E `` S \<subseteq> S"
    and sf: "safe ?E (visited - recStack)" and nv: "nodeId \<notin> visited"
    and path: "\<forall>r\<in>recStack. (r, nodeId) \<in> ?E\<^sup>*" and inS: "nodeId \<in> S"
    by (simp_all add: dfs_pre_def)
  from nv sub have nr: "nodeId \<notin> recStack" by auto
  from nv have eq: "insert nodeId visited - insert nodeId recStack = visited - recStack"
    by auto
  have pre1: "dfs_pre ?E S ?st1"
    using sub cl sf eq by (auto simp: dfs_pre_def)
  have edge: "\<forall>m\<in>set ?ns. (nodeId, m) \<in> ?E" by (simp add: adj_rel_def)
  have path1: "\<forall>m\<in>set ?ns. \<forall>r\<in>snd ?st1. (r, m) \<in> ?E\<^sup>+"
    using edge path by (auto intro: rtrancl_into_trancl1)
  have inS1: "set ?ns \<subseteq> S" using edge inS cl by auto
  note IH = "1.IH"[OF pre1 path1 inS1]
  obtain found visited' recStack' where
    r: "dfs_for adjacencyList ?ns ?st1 = (found, visited', recStack')"
    by (cases "dfs_for adjacencyList ?ns ?st1") auto
  show ?case
  proof (cases found)
    case True
    with IH r show ?thesis by (simp add: dfs_post_def dfs.simps)
  next
    case False
    with IH r have v: "insert nodeId visited \<subseteq> visited'"
      and rs: "recStack' = insert nodeId recStack"
      and sf': "safe ?E (visited' - insert nodeId recStack)"
      and nb: "set ?ns \<subseteq> visited' - insert nodeId recStack"
      by (simp_all add: dfs_post_def)
    have "?E `` {nodeId} \<subseteq> visited' - insert nodeId recStack"
      using nb by (auto simp: adj_rel_def)
    from safe_insert[OF sf' this]
    have "safe ?E (insert nodeId (visited' - insert nodeId recStack))" by simp
    moreover have "insert nodeId (visited' - insert nodeId recStack) = visited' - recStack"
      using v nr by auto
    ultimately have "safe ?E (visited' - recStack)" by simp
    with False r v rs nr show ?thesis by (auto simp: dfs_post_def dfs.simps)
  qed
next
  case (2 adjacencyList st)
  then show ?case by (simp add: dfs_post_def dfs_pre_def)
next
  case (3 adjacencyList neighbor rest visited recStack)
  let ?E = "adj_rel adjacencyList"
  from "3.prems" have sub: "recStack \<subseteq> visited" and cl: "?E `` S \<subseteq> S"
    and sf: "safe ?E (visited - recStack)"
    and path: "\<forall>m\<in>set (neighbor # rest). \<forall>r\<in>recStack. (r, m) \<in> ?E\<^sup>+"
    and inS: "set (neighbor # rest) \<subseteq> S"
    by (simp_all add: dfs_pre_def)
  show ?case
  proof (cases "neighbor \<in> visited")
    case False
    obtain found st' where r: "dfs adjacencyList neighbor (visited, recStack) = (found, st')"
      by (cases "dfs adjacencyList neighbor (visited, recStack)")
    have p1: "\<forall>r\<in>snd (visited, recStack). (r, neighbor) \<in> ?E\<^sup>*"
      using path by (auto intro: trancl_into_rtrancl)
    from "3.IH"(1)[OF False "3.prems"(1) _ p1] False inS r
    have post1: "dfs_post ?E S (visited, recStack) (found, st')"
      and in1: "\<not> found \<longrightarrow> neighbor \<in> fst st'" by simp_all
    show ?thesis
    proof (cases found)
      case True
      with post1 r False show ?thesis by (simp add: dfs_post_def)
    next
      case nf: False
      obtain visited1 recStack1 where st': "st' = (visited1, recStack1)" by (cases st')
      from post1 nf st' have v1: "visited \<subseteq> visited1" and r1: "recStack1 = recStack"
        and sf1: "safe ?E (visited1 - recStack)" by (simp_all add: dfs_post_def)
      have pre2: "dfs_pre ?E S st'"
        using st' r1 v1 sub cl sf1 by (auto simp: dfs_pre_def)
      have path2: "\<forall>m\<in>set rest. \<forall>r\<in>snd st'. (r, m) \<in> ?E\<^sup>+"
        using path st' r1 by simp
      from "3.IH"(2)[OF False r[symmetric] refl _ pre2 path2] nf inS
      have post2: "dfs_post ?E S st' (dfs_for adjacencyList rest st')"
        and in2: "\<not> fst (dfs_for adjacencyList rest st') \<longrightarrow>
            set rest \<subseteq> fst (snd (dfs_for adjacencyList rest st')) - snd st'"
        by simp_all
      have res: "dfs_for adjacencyList (neighbor # rest) (visited, recStack)
            = dfs_for adjacencyList rest st'"
        using False r nf by simp
      have nrec: "neighbor \<notin> recStack" using False sub by auto
      show ?thesis
      proof (cases "fst (dfs_for adjacencyList rest st')")
        case True
        with post2 show ?thesis unfolding res by (simp add: dfs_post_def)
      next
        case nf2: False
        let ?V = "fst (snd (dfs_for adjacencyList rest st'))"
        from post2 nf2 st' r1 have v2: "visited1 \<subseteq> ?V"
          and r2: "snd (snd (dfs_for adjacencyList rest st')) = recStack"
          and sf2: "safe ?E (?V - recStack)" by (simp_all add: dfs_post_def)
        from in2 nf2 st' r1 have "set rest \<subseteq> ?V - recStack" by simp
        moreover from in1 nf st' v2 nrec have "neighbor \<in> ?V - recStack" by auto
        moreover from v1 v2 have "visited \<subseteq> ?V" by blast
        ultimately show ?thesis
          unfolding res using nf2 r2 sf2 by (simp add: dfs_post_def)
      qed
    qed
  next
    case True
    show ?thesis
    proof (cases "neighbor \<in> recStack")
      case inr: True
      with path have "(neighbor, neighbor) \<in> ?E\<^sup>+" by simp
      with inS True inr show ?thesis by (auto simp: dfs_post_def)
    next
      case nr: False
      have path2: "\<forall>m\<in>set rest. \<forall>r\<in>snd (visited, recStack). (r, m) \<in> ?E\<^sup>+"
        using path by simp
      from "3.IH"(3)[OF _ nr "3.prems"(1) path2] True inS
      have "dfs_post ?E S (visited, recStack) (dfs_for adjacencyList rest (visited, recStack))"
        and "\<not> fst (dfs_for adjacencyList rest (visited, recStack)) \<longrightarrow>
            set rest \<subseteq> fst (snd (dfs_for adjacencyList rest (visited, recStack))) - recStack"
        by simp_all
      with True nr show ?thesis by (auto simp: dfs_post_def)
    qed
  qed
qed

section \<open>Whole-graph check and the validation hook\<close>

text \<open>
  The outer loop \<open>for (const node of nodes)\<close> of \<open>hasCycle\<close> and \<open>wouldCreateCycle\<close>:
  a depth-first search is started from every node that is not yet visited.
\<close>

fun dfs_all :: "adjacency \<Rightarrow> node list \<Rightarrow> string set \<times> string set \<Rightarrow> bool" where
  "dfs_all adjacencyList [] st = False"
| "dfs_all adjacencyList (node # rest) (visited, recStack) =
     (if node_id node \<notin> visited then
        (let (found, st') = dfs adjacencyList (node_id node) (visited, recStack)
         in if found then True else dfs_all adjacencyList rest st')
      else dfs_all adjacencyList rest (visited, recStack))"

definition hasCycle :: "node list \<Rightarrow> edge list \<Rightarrow> bool" where
  "hasCycle nodes edges = dfs_all (buildAdjacencyList nodes edges) nodes ({}, {})"

definition cycle_error :: string where
  "cycle_error = ''Graph contains cycles - DAG must be acyclic''"

definition self_loop_error :: string where
  "self_loop_error = ''Self-referential edges are not allowed in a DAG''"

definition min_nodes_warning :: string where
  "min_nodes_warning = ''Graph should have at least 2 nodes for meaningful connections''"

definition not_connected_warning :: string where
  "not_connected_warning = ''Some nodes are not connected to the graph''"

definition no_connections_warning :: string where
  "no_connections_warning = ''No connections between nodes''"

text \<open>
  \<open>connectedNodes\<close> is a \<open>Set\<close> that receives the source and the target of every edge;
  only its size is read.
\<close>

definition connectedNodes :: "edge list \<Rightarrow> string set" where
  "connectedNodes edges = set (concat (map (\<lambda>edge. [source edge, target edge]) edges))"

text \<open>
  The body of the \<open>useMemo\<close> callback of \<open>useDAGValidation\<close>.  The two arrays
  \<open>errors\<close> and \<open>warnings\<close> are built by appending in the order of the source's
  \<open>push\<close> calls.
\<close>

definition useDAGValidation :: "node list \<Rightarrow> edge list \<Rightarrow> GraphValidation" where
  "useDAGValidation nodes edges =
     (let warnings1 = (if length nodes < 2 then [min_nodes_warning] else []);
          errors1 = (if hasCycle nodes edges then [cycle_error] else []);
          selfReferentialEdges = filter (\<lambda>edge. source edge = target edge) edges;
          errors2 = errors1 @ (if length selfReferentialEdges > 0 then [self_loop_error] else []);
          warnings2 = warnings1 @
            (if length nodes > 1 then
               (if card (connectedNodes edges) < length nodes \<and> length edges > 0
                then [not_connected_warning] else []) @
               (if length edges = 0 then [no_connections_warning] else [])
             else [])
      in \<lparr>isValid = (length errors2 = 0), errors = errors2, warnings = warnings2\<rparr>)"

section \<open>Incremental check at connection time\<close>

definition wouldCreateCycle :: "node list \<Rightarrow> edge list \<Rightarrow> string \<Rightarrow> string \<Rightarrow> bool" where
  "wouldCreateCycle nodes edges sourceId targetId =
     dfs_all (push_edge sourceId targetId (buildAdjacencyList nodes edges)) nodes ({}, {})"

definition isValidConnection :: "node list \<Rightarrow> edge list \<Rightarrow> connection \<Rightarrow> bool" where
  "isValidConnection nodes edges connection =
     (if conn_source connection = conn_target connection then False
      else \<not> wouldCreateCycle nodes edges (conn_source connection) (conn_target connection))"


datatype toast = ToastError string | ToastSuccess string

text \<open>
  Modelled from the spec: \<open>addEdge\<close> is imported from the \<open>reactflow\<close> package and is
  not part of the sources; the specification of \<open>connect\<close> says that the accepted edge
  is appended to the edge collection.
\<close>

definition addEdge :: "connection \<Rightarrow> edge list \<Rightarrow> edge list" where
  "addEdge edgeParams eds =
     eds @ [\<lparr>source = conn_source edgeParams, target = conn_target edgeParams,
             edge_selected = False\<rparr>]"

text \<open>
  \<open>onConnect\<close> returns the new value of the \<open>edges\<close> state and the notification
  shown, if any.
\<close>

definition onConnect :: "node list \<Rightarrow> edge list \<Rightarrow> connection \<Rightarrow> edge list \<times> toast option" where
  "onConnect nodes edges params =
     (if isValidConnection nodes edges params then (addEdge params edges, None)
      else (edges, Some (ToastError ''Connection would create a cycle'')))"

text \<open>Nodes and edges of the worked scenarios: only the ids and endpoints matter.\<close>

definition mk_node :: "string \<Rightarrow> node" where
  "mk_node i = \<lparr>node_id = i, node_selected = False, position = (0, 0), label = i\<rparr>"

definition mk_edge :: "string \<Rightarrow> string \<Rightarrow> edge" where
  "mk_edge a b = \<lparr>source = a, target = b, edge_selected = False\<rparr>"

section \<open>Correctness of the cycle check\<close>

definition edge_rel :: "edge list \<Rightarrow> (string \<times> string) set" where
  "edge_rel edges = (\<lambda>edge. (source edge, target edge)) ` set edges"

definition node_ids :: "node list \<Rightarrow> string set" where
  "node_ids nodes = node_id ` set nodes"

lemma adj_get_Nil: "adj_get [] a = []"
  by (simp add: adj_get_def)

lemma adj_get_update:
  "adj_get (AList.update k v adjacencyList) a = (if a = k then v else adj_get adjacencyList a)"
  by (simp add: adj_get_def update_conv')

lemma adj_get_push_edge:
  "adj_get (push_edge src tgt adjacencyList) a =
     (if a = src then adj_get adjacencyList a @ [tgt] else adj_get adjacencyList a)"
  by (simp add: push_edge_def adj_get_update)

lemma adj_get_fold_nodes:
  "adj_get (fold (\<lambda>node adjacencyList. AList.update (node_id node) [] adjacencyList) nodes al) a =
     (if a \<in> node_id ` set nodes then [] else adj_get al a)"
  by (induction nodes arbitrary: al) (auto simp: adj_get_update)

lemma adj_get_fold_edges:
  "adj_get (fold (\<lambda>edge adjacencyList. push_edge (source edge) (target edge) adjacencyList) edges al) a =
     adj_get al a @ map target (filter (\<lambda>edge. source edge = a) edges)"
  by (induction edges arbitrary: al) (auto simp: adj_get_push_edge)

lemma adj_get_build:
  "adj_get (buildAdjacencyList nodes edges) a = map target (filter (\<lambda>edge. source edge = a) edges)"
  by (simp add: buildAdjacencyList_def adj_get_fold_edges adj_get_fold_nodes adj_get_Nil)

lemma adj_rel_build: "adj_rel (buildAdjacencyList nodes edges) = edge_rel edges"
  by (auto simp: adj_rel_def adj_get_build edge_rel_def)

lemma adj_rel_push_edge:
  "adj_rel (push_edge src tgt adjacencyList) = insert (src, tgt) (adj_rel adjacencyList)"
  by (auto simp: adj_rel_def adj_get_push_edge split: if_splits)

lemma dfs_all_correct:
  "dfs_pre (adj_rel adjacencyList) S st \<Longrightarrow> snd st = {} \<Longrightarrow> node_ids nodes \<subseteq> S \<Longrightarrow>
     (dfs_all adjacencyList nodes st \<longrightarrow> (\<exists>x\<in>S. (x, x) \<in> (adj_rel adjacencyList)\<^sup>+)) \<and>
     (\<not> dfs_all adjacencyList nodes st \<longrightarrow>
        (\<exists>B. fst st \<union> node_ids nodes \<subseteq> B \<and> safe (adj_rel adjacencyList) B))"
proof (induction adjacencyList nodes st rule: dfs_all.induct)
  case (1 adjacencyList st)
  then have "safe (adj_rel adjacencyList) (fst st)" by (simp add: dfs_pre_def)
  then have "\<exists>B. fst st \<union> node_ids [] \<subseteq> B \<and> safe (adj_rel adjacencyList) B"
    by (auto simp: node_ids_def)
  then show ?case by simp
next
  case (2 adjacencyList node rest visited recStack)
  let ?E = "adj_rel adjacencyList"
  from "2.prems"(2) have rs: "recStack = {}" by simp
  from "2.prems"(3) have inS: "node_id node \<in> S" and restS: "node_ids rest \<subseteq> S"
    by (simp_all add: node_ids_def)
  have ids: "node_ids (node # rest) = insert (node_id node) (node_ids rest)"
    by (simp add: node_ids_def)
  show ?case
  proof (cases "node_id node \<in> visited")
    case True
    then have nn: "\<not> node_id node \<notin> visited" by simp
    have res: "dfs_all adjacencyList (node # rest) (visited, recStack)
        = dfs_all adjacencyList rest (visited, recStack)"
      using True by simp
    note IH = "2.IH"(2)[OF nn "2.prems"(1) "2.prems"(2) restS]
    show ?thesis
    proof (cases "dfs_all adjacencyList rest (visited, recStack)")
      case t: True
      with IH have "\<exists>x\<in>S. (x, x) \<in> ?E\<^sup>+" by blast
      with t show ?thesis unfolding res by blast
    next
      case f: False
      with IH obtain B where "fst (visited, recStack) \<union> node_ids rest \<subseteq> B" "safe ?E B"
        by blast
      with True have "fst (visited, recStack) \<union> node_ids (node # rest) \<subseteq> B \<and> safe ?E B"
        unfolding ids by auto
      with f show ?thesis unfolding res by blast
    qed
  next
    case False
    obtain found st' where r: "dfs adjacencyList (node_id node) (visited, recStack) = (found, st')"
      by (cases "dfs adjacencyList (node_id node) (visited, recStack)")
    have nv: "node_id node \<notin> fst (visited, recStack)" using False by simp
    have pth: "\<forall>r\<in>snd (visited, recStack). (r, node_id node) \<in> ?E\<^sup>*" using rs by simp
    from dfs_correct(1)[OF "2.prems"(1) nv pth inS]
    have post: "dfs_post ?E S (visited, recStack) (found, st')"
      and vis: "\<not> found \<longrightarrow> node_id node \<in> fst st'" unfolding r by simp_all
    show ?thesis
    proof (cases found)
      case True
      then have "dfs_all adjacencyList (node # rest) (visited, recStack)"
        using False r by simp
      moreover from post True have "\<exists>x\<in>S. (x, x) \<in> ?E\<^sup>+" by (simp add: dfs_post_def)
      ultimately show ?thesis by blast
    next
      case nf: False
      from post nf rs have v1: "visited \<subseteq> fst st'" and r1: "snd st' = {}"
        and sf1: "safe ?E (fst st')" by (simp_all add: dfs_post_def)
      from "2.prems"(1) have cl: "?E `` S \<subseteq> S" by (simp add: dfs_pre_def)
      have pre2: "dfs_pre ?E S st'" using r1 sf1 cl by (simp add: dfs_pre_def)
      note IH = "2.IH"(1)[OF False r[symmetric] refl nf pre2 r1 restS]
      have res: "dfs_all adjacencyList (node # rest) (visited, recStack) = dfs_all adjacencyList rest st'"
        using False r nf by simp
      show ?thesis
      proof (cases "dfs_all adjacencyList rest st'")
        case True
        with IH have "\<exists>x\<in>S. (x, x) \<in> ?E\<^sup>+" by blast
        with True show ?thesis unfolding res by blast
      next
        case False
        with IH obtain B where "fst st' \<union> node_ids rest \<subseteq> B" "safe ?E B" by blast
        with v1 vis nf have "fst (visited, recStack) \<union> node_ids (node # rest) \<subseteq> B \<and> safe ?E B"
          unfolding ids by auto
        with False show ?thesis unfolding res by blast
      qed
    qed
  qed
qed

text \<open>
  The outer loop answers \<open>true\<close> exactly when some directed cycle of the adjacency
  relation can be reached from one of the nodes it starts from.
\<close>

lemma dfs_all_iff:
  "dfs_all adjacencyList nodes ({}, {}) \<longleftrightarrow>
     (\<exists>x \<in> (adj_rel adjacencyList)\<^sup>* `` node_ids nodes. (x, x) \<in> (adj_rel adjacencyList)\<^sup>+)"
proof -
  let ?E = "adj_rel adjacencyList"
  let ?S = "?E\<^sup>* `` node_ids nodes"
  have cl: "?E `` ?S \<subseteq> ?S" by (auto intro: rtrancl_into_rtrancl)
  have pre: "dfs_pre ?E ?S ({}, {})" using cl by (simp add: dfs_pre_def safe_def)
  have sub: "node_ids nodes \<subseteq> ?S" by auto
  note c = dfs_all_correct[OF pre _ sub]
  show ?thesis
  proof
    assume "dfs_all adjacencyList nodes ({}, {})"
    with c show "\<exists>x\<in>?S. (x, x) \<in> ?E\<^sup>+" by simp
  next
    assume cyc: "\<exists>x\<in>?S. (x, x) \<in> ?E\<^sup>+"
    show "dfs_all adjacencyList nodes ({}, {})"
    proof (rule ccontr)
      assume "\<not> dfs_all adjacencyList nodes ({}, {})"
      with c obtain B where B: "node_ids nodes \<subseteq> B" "safe ?E B" by auto
      from B(2) have "?E\<^sup>* `` B = B" by (simp add: safe_def Image_closed_trancl)
      with B(1) have "?S \<subseteq> B" by blast
      with cyc B(2) show False by (auto simp: safe_def)
    qed
  qed
qed

lemma hasCycle_iff:
  "hasCycle nodes edges \<longleftrightarrow>
     (\<exists>x \<in> (edge_rel edges)\<^sup>* `` node_ids nodes. (x, x) \<in> (edge_rel edges)\<^sup>+)"
  by (simp add: hasCycle_def dfs_all_iff adj_rel_build)

lemma wouldCreateCycle_iff:
  "wouldCreateCycle nodes edges sourceId targetId \<longleftrightarrow>
     (\<exists>x \<in> (insert (sourceId, targetId) (edge_rel edges))\<^sup>* `` node_ids nodes.
        (x, x) \<in> (insert (sourceId, targetId) (edge_rel edges))\<^sup>+)"
  by (simp add: wouldCreateCycle_def dfs_all_iff adj_rel_push_edge adj_rel_build)

text \<open>
  The data model's edge invariant: the source and the target of every edge are ids of
  nodes of the graph.
\<close>

definition edges_reference_nodes :: "node list \<Rightarrow> edge list \<Rightarrow> bool" where
  "edges_reference_nodes nodes edges \<longleftrightarrow>
     (\<forall>edge \<in> set edges. source edge \<in> node_ids nodes \<and> target edge \<in> node_ids nodes)"

lemma cycle_vertex_is_source:
  assumes "(x, x) \<in> E\<^sup>+" shows "x \<in> Domain E"
  using assms by (meson Domain.DomainI tranclD)

lemma reachable_cycle_iff:
  assumes "Domain E \<subseteq> N"
  shows "(\<exists>x \<in> E\<^sup>* `` N. (x, x) \<in> E\<^sup>+) \<longleftrightarrow> \<not> acyclic E"
proof
  assume "\<exists>x \<in> E\<^sup>* `` N. (x, x) \<in> E\<^sup>+"
  then show "\<not> acyclic E" by (auto simp: acyclic_def)
next
  assume "\<not> acyclic E"
  then obtain x where x: "(x, x) \<in> E\<^sup>+" by (auto simp: acyclic_def)
  from cycle_vertex_is_source[OF x] assms have "x \<in> N" by auto
  then have "x \<in> E\<^sup>* `` N" by auto
  with x show "\<exists>x \<in> E\<^sup>* `` N. (x, x) \<in> E\<^sup>+" by auto
qed


lemma hasCycle_well_formed:
  assumes "edges_reference_nodes nodes edges"
  shows "hasCycle nodes edges \<longleftrightarrow> \<not> acyclic (edge_rel edges)"
proof -
  from assms have "Domain (edge_rel edges) \<subseteq> node_ids nodes"
    by (auto simp: edges_reference_nodes_def edge_rel_def)
  from reachable_cycle_iff[OF this] show ?thesis by (simp add: hasCycle_iff)
qed

lemma wouldCreateCycle_well_formed:
  assumes "edges_reference_nodes nodes edges" and "sourceId \<in> node_ids nodes"
  shows "wouldCreateCycle nodes edges sourceId targetId \<longleftrightarrow>
           \<not> acyclic (insert (sourceId, targetId) (edge_rel edges))"
proof -
  from assms have "Domain (insert (sourceId, targetId) (edge_rel edges)) \<subseteq> node_ids nodes"
    by (auto simp: edges_reference_nodes_def edge_rel_def)
  from reachable_cycle_iff[OF this] show ?thesis by (simp add: wouldCreateCycle_iff)
qed

lemma wouldCreateCycle_dag:
  assumes "acyclic (edge_rel edges)" and "sourceId \<in> node_ids nodes"
  shows "wouldCreateCycle nodes edges sourceId targetId \<longleftrightarrow>
           \<not> acyclic (insert (sourceId, targetId) (edge_rel edges))"
proof -
  let ?E = "edge_rel edges"
  let ?F = "insert (sourceId, targetId) ?E"
  have "(\<exists>x \<in> ?F\<^sup>* `` node_ids nodes. (x, x) \<in> ?F\<^sup>+) \<longleftrightarrow> \<not> acyclic ?F"
  proof
    assume "\<exists>x \<in> ?F\<^sup>* `` node_ids nodes. (x, x) \<in> ?F\<^sup>+"
    then show "\<not> acyclic ?F" by (auto simp: acyclic_def)
  next
    assume "\<not> acyclic ?F"
    with assms(1) have ret: "(targetId, sourceId) \<in> ?E\<^sup>*" by (simp add: acyclic_insert)
    have "?E \<subseteq> ?F" by auto
    then have "?E\<^sup>* \<subseteq> ?F\<^sup>*" by (rule rtrancl_mono)
    with ret have "(targetId, sourceId) \<in> ?F\<^sup>*" by blast
    moreover have "(sourceId, targetId) \<in> ?F" by simp
    ultimately have "(sourceId, sourceId) \<in> ?F\<^sup>+" by (rule rtrancl_into_trancl2[rotated])
    moreover from assms(2) have "sourceId \<in> ?F\<^sup>* `` node_ids nodes" by auto
    ultimately show "\<exists>x \<in> ?F\<^sup>* `` node_ids nodes. (x, x) \<in> ?F\<^sup>+" by blast
  qed
  then show ?thesis by (simp add: wouldCreateCycle_iff)
qed

lemma cycle_error_in_errors:
  "cycle_error \<in> set (errors (useDAGValidation nodes edges)) \<longleftrightarrow> hasCycle nodes edges"
  by (simp add: useDAGValidation_def Let_def cycle_error_def self_loop_error_def)

lemma scenario_two_cycle:
  "hasCycle [mk_node ''1'', mk_node ''2''] [mk_edge ''1'' ''2'', mk_edge ''2'' ''1'']"
  by code_simp

lemma scenario_connect_3_1:
  "wouldCreateCycle [mk_node ''1'', mk_node ''2'', mk_node ''3'']
     [mk_edge ''1'' ''2'', mk_edge ''2'' ''3''] ''3'' ''1''"
  by code_simp

section \<open>Properties of validation and connection\<close>

text \<open>
  C2.  For every graph whose edges all have their source and target among the node ids,
  the validation report contains the cycle error exactly when the edge relation has a
  directed cycle.  In particular nodes 1, 2 with edges 1\<rightarrow>2 and 2\<rightarrow>1 give an invalid
  report that contains the cycle error.
\<close>

theorem validate_cycle_error_iff_cycle:
  "(edges_reference_nodes nodes edges \<longrightarrow>
      (cycle_error \<in> set (errors (useDAGValidation nodes edges)) \<longleftrightarrow>
         \<not> acyclic (edge_rel edges))) \<and>
   \<not> isValid (useDAGValidation [mk_node ''1'', mk_node ''2'']
                 [mk_edge ''1'' ''2'', mk_edge ''2'' ''1'']) \<and>
   cycle_error \<in> set (errors (useDAGValidation [mk_node ''1'', mk_node ''2'']
                 [mk_edge ''1'' ''2'', mk_edge ''2'' ''1'']))"
proof (intro conjI impI)
  assume "edges_reference_nodes nodes edges"
  then show "cycle_error \<in> set (errors (useDAGValidation nodes edges)) \<longleftrightarrow>
      \<not> acyclic (edge_rel edges)"
    by (simp add: cycle_error_in_errors hasCycle_well_formed)
next
  show "\<not> isValid (useDAGValidation [mk_node ''1'', mk_node ''2'']
                 [mk_edge ''1'' ''2'', mk_edge ''2'' ''1''])"
    using scenario_two_cycle by (simp add: useDAGValidation_def Let_def)
next
  show "cycle_error \<in> set (errors (useDAGValidation [mk_node ''1'', mk_node ''2'']
                 [mk_edge ''1'' ''2'', mk_edge ''2'' ''1'']))"
    using scenario_two_cycle by (simp only: cycle_error_in_errors)
qed

theorem validate_cycle_error_iff_cycle_witness:
  "edges_reference_nodes [mk_node ''1'', mk_node ''2''] [mk_edge ''1'' ''2'', mk_edge ''2'' ''1''] \<and>
   \<not> acyclic (edge_rel [mk_edge ''1'' ''2'', mk_edge ''2'' ''1''])"
proof -
  have wf: "edges_reference_nodes [mk_node ''1'', mk_node ''2'']
      [mk_edge ''1'' ''2'', mk_edge ''2'' ''1'']"
    by (simp add: edges_reference_nodes_def node_ids_def mk_node_def mk_edge_def)
  with validate_cycle_error_iff_cycle[of "[mk_node ''1'', mk_node ''2'']"
      "[mk_edge ''1'' ''2'', mk_edge ''2'' ''1'']"]
  show ?thesis by blast
qed

text \<open>
  C1 as stated fails on graphs the editor can hold.  With nodes 1, 2 and the edges 3\<rightarrow>4,
  4\<rightarrow>3 (both endpoints absent) the connection 1\<rightarrow>2 is appended although the extended
  edge relation has a directed cycle.  With nodes 1, 2, 3 and the edges 1\<rightarrow>2, 2\<rightarrow>1 the
  connection 2\<rightarrow>3 is rejected although node 2 cannot be reached from node 3, so the new
  edge lies on no cycle.
\<close>

theorem connect_not_iff_cycle_on_every_graph:
  "onConnect [mk_node ''1'', mk_node ''2''] [mk_edge ''3'' ''4'', mk_edge ''4'' ''3'']
       \<lparr>conn_source = ''1'', conn_target = ''2''\<rparr> =
     ([mk_edge ''3'' ''4'', mk_edge ''4'' ''3'', mk_edge ''1'' ''2''], None) \<and>
   \<not> acyclic (insert (''1'', ''2'') (edge_rel [mk_edge ''3'' ''4'', mk_edge ''4'' ''3''])) \<and>
   onConnect [mk_node ''1'', mk_node ''2'', mk_node ''3''] [mk_edge ''1'' ''2'', mk_edge ''2'' ''1'']
       \<lparr>conn_source = ''2'', conn_target = ''3''\<rparr> =
     ([mk_edge ''1'' ''2'', mk_edge ''2'' ''1''],
      Some (ToastError ''Connection would create a cycle'')) \<and>
   (''3'', ''2'') \<notin> (edge_rel [mk_edge ''1'' ''2'', mk_edge ''2'' ''1''])\<^sup>*"
proof -
  have a1: "\<not> wouldCreateCycle [mk_node ''1'', mk_node ''2'']
      [mk_edge ''3'' ''4'', mk_edge ''4'' ''3''] ''1'' ''2''" by code_simp
  then have c1: "onConnect [mk_node ''1'', mk_node ''2''] [mk_edge ''3'' ''4'', mk_edge ''4'' ''3'']
       \<lparr>conn_source = ''1'', conn_target = ''2''\<rparr> =
     ([mk_edge ''3'' ''4'', mk_edge ''4'' ''3'', mk_edge ''1'' ''2''], None)"
    by (simp add: onConnect_def isValidConnection_def addEdge_def mk_edge_def)
  have "(''3'', ''4'') \<in> insert (''1'', ''2'') (edge_rel [mk_edge ''3'' ''4'', mk_edge ''4'' ''3''])"
    "(''4'', ''3'') \<in> insert (''1'', ''2'') (edge_rel [mk_edge ''3'' ''4'', mk_edge ''4'' ''3''])"
    by (simp_all add: edge_rel_def mk_edge_def)
  then have "(''3'', ''3'') \<in> (insert (''1'', ''2'')
      (edge_rel [mk_edge ''3'' ''4'', mk_edge ''4'' ''3'']))\<^sup>+" by (meson trancl.simps)
  then have c2: "\<not> acyclic (insert (''1'', ''2'') (edge_rel [mk_edge ''3'' ''4'', mk_edge ''4'' ''3'']))"
    by (auto simp: acyclic_def)
  have a2: "wouldCreateCycle [mk_node ''1'', mk_node ''2'', mk_node ''3'']
      [mk_edge ''1'' ''2'', mk_edge ''2'' ''1''] ''2'' ''3''" by code_simp
  then have c3: "onConnect [mk_node ''1'', mk_node ''2'', mk_node ''3'']
       [mk_edge ''1'' ''2'', mk_edge ''2'' ''1'']
       \<lparr>conn_source = ''2'', conn_target = ''3''\<rparr> =
     ([mk_edge ''1'' ''2'', mk_edge ''2'' ''1''],
      Some (ToastError ''Connection would create a cycle''))"
    by (simp add: onConnect_def isValidConnection_def)
  have "edge_rel [mk_edge ''1'' ''2'', mk_edge ''2'' ''1''] `` {''3''} \<subseteq> {''3''}"
    by (auto simp: edge_rel_def mk_edge_def)
  then have "(edge_rel [mk_edge ''1'' ''2'', mk_edge ''2'' ''1''])\<^sup>* `` {''3''} = {''3''}"
    by (rule Image_closed_trancl)
  moreover have "''2'' \<in> (edge_rel [mk_edge ''1'' ''2'', mk_edge ''2'' ''1''])\<^sup>* `` {''3''}"
    if "(''3'', ''2'') \<in> (edge_rel [mk_edge ''1'' ''2'', mk_edge ''2'' ''1''])\<^sup>*"
    using that by (rule ImageI) simp
  ultimately have c4: "(''3'', ''2'') \<notin> (edge_rel [mk_edge ''1'' ''2'', mk_edge ''2'' ''1''])\<^sup>*"
    by auto
  from c1 c2 c3 c4 show ?thesis by blast
qed

text \<open>
  C1, amended.  For every graph and all distinct ids \<open>u\<close> and \<open>v\<close>, \<open>onConnect\<close> appends
  the edge \<open>u \<rightarrow> v\<close> exactly when no directed cycle of the edge relation extended by
  \<open>(u, v)\<close> can be reached from a node of the graph, and otherwise leaves the edges
  unchanged and reports the rejection.  For every acyclic graph and all distinct node
  ids \<open>u\<close> and \<open>v\<close> this means: the edge is appended exactly when adding it creates no
  cycle, that is, when \<open>u\<close> cannot be reached from \<open>v\<close>.  In particular, with nodes 1,
  2, 3 and edges 1\<rightarrow>2, 2\<rightarrow>3 the connection 3\<rightarrow>1 is rejected and the two edges remain.
\<close>

theorem connect_succeeds_iff_no_reachable_cycle:
  "(u \<noteq> v \<longrightarrow>
      onConnect nodes edges \<lparr>conn_source = u, conn_target = v\<rparr> =
        (if \<exists>x \<in> (insert (u, v) (edge_rel edges))\<^sup>* `` node_ids nodes.
               (x, x) \<in> (insert (u, v) (edge_rel edges))\<^sup>+
         then (edges, Some (ToastError ''Connection would create a cycle''))
         else (edges @ [\<lparr>source = u, target = v, edge_selected = False\<rparr>], None))) \<and>
   (acyclic (edge_rel edges) \<and> u \<in> node_ids nodes \<and> v \<in> node_ids nodes \<and> u \<noteq> v \<longrightarrow>
      onConnect nodes edges \<lparr>conn_source = u, conn_target = v\<rparr> =
        (if (v, u) \<in> (edge_rel edges)\<^sup>*
         then (edges, Some (ToastError ''Connection would create a cycle''))
         else (edges @ [\<lparr>source = u, target = v, edge_selected = False\<rparr>], None)) \<and>
      (acyclic (insert (u, v) (edge_rel edges)) \<longleftrightarrow> (v, u) \<notin> (edge_rel edges)\<^sup>*)) \<and>
   onConnect [mk_node ''1'', mk_node ''2'', mk_node ''3'']
       [mk_edge ''1'' ''2'', mk_edge ''2'' ''3'']
       \<lparr>conn_source = ''3'', conn_target = ''1''\<rparr> =
     ([mk_edge ''1'' ''2'', mk_edge ''2'' ''3''],
      Some (ToastError ''Connection would create a cycle'')) \<and>
   length (fst (onConnect [mk_node ''1'', mk_node ''2'', mk_node ''3'']
       [mk_edge ''1'' ''2'', mk_edge ''2'' ''3'']
       \<lparr>conn_source = ''3'', conn_target = ''1''\<rparr>)) = 2"
proof -
  have general: "onConnect nodes edges \<lparr>conn_source = u, conn_target = v\<rparr> =
        (if \<exists>x \<in> (insert (u, v) (edge_rel edges))\<^sup>* `` node_ids nodes.
               (x, x) \<in> (insert (u, v) (edge_rel edges))\<^sup>+
         then (edges, Some (ToastError ''Connection would create a cycle''))
         else (edges @ [\<lparr>source = u, target = v, edge_selected = False\<rparr>], None))"
    if "u \<noteq> v"
    using that
    by (simp add: onConnect_def isValidConnection_def addEdge_def wouldCreateCycle_iff)
  have ins: "acyclic (insert (u, v) (edge_rel edges)) \<longleftrightarrow> (v, u) \<notin> (edge_rel edges)\<^sup>*"
    if "acyclic (edge_rel edges)"
    using that by (simp add: acyclic_insert)
  have dag: "onConnect nodes edges \<lparr>conn_source = u, conn_target = v\<rparr> =
        (if (v, u) \<in> (edge_rel edges)\<^sup>*
         then (edges, Some (ToastError ''Connection would create a cycle''))
         else (edges @ [\<lparr>source = u, target = v, edge_selected = False\<rparr>], None))"
    if "acyclic (edge_rel edges)" "u \<in> node_ids nodes" "u \<noteq> v"
    using wouldCreateCycle_dag[OF that(1,2), of v] ins[OF that(1)] that(3)
    by (simp add: onConnect_def isValidConnection_def addEdge_def)
  have scen: "onConnect [mk_node ''1'', mk_node ''2'', mk_node ''3'']
       [mk_edge ''1'' ''2'', mk_edge ''2'' ''3'']
       \<lparr>conn_source = ''3'', conn_target = ''1''\<rparr> =
     ([mk_edge ''1'' ''2'', mk_edge ''2'' ''3''],
      Some (ToastError ''Connection would create a cycle''))"
    using scenario_connect_3_1 by (simp add: onConnect_def isValidConnection_def)
  have len: "length (fst (onConnect [mk_node ''1'', mk_node ''2'', mk_node ''3'']
       [mk_edge ''1'' ''2'', mk_edge ''2'' ''3'']
       \<lparr>conn_source = ''3'', conn_target = ''1''\<rparr>)) = 2"
    unfolding scen by simp
  show ?thesis
  proof (intro conjI impI)
    assume "u \<noteq> v"
    then show "onConnect nodes edges \<lparr>conn_source = u, conn_target = v\<rparr> =
        (if \<exists>x \<in> (insert (u, v) (edge_rel edges))\<^sup>* `` node_ids nodes.
               (x, x) \<in> (insert (u, v) (edge_rel edges))\<^sup>+
         then (edges, Some (ToastError ''Connection would create a cycle''))
         else (edges @ [\<lparr>source = u, target = v, edge_selected = False\<rparr>], None))"
      by (rule general)
  next
    assume h: "acyclic (edge_rel edges) \<and> u \<in> node_ids nodes \<and> v \<in> node_ids nodes \<and> u \<noteq> v"
    then show "onConnect nodes edges \<lparr>conn_source = u, conn_target = v\<rparr> =
        (if (v, u) \<in> (edge_rel edges)\<^sup>*
         then (edges, Some (ToastError ''Connection would create a cycle''))
         else (edges @ [\<lparr>source = u, target = v, edge_selected = False\<rparr>], None))"
      by (intro dag) simp_all
    from h show "acyclic (insert (u, v) (edge_rel edges)) \<longleftrightarrow> (v, u) \<notin> (edge_rel edges)\<^sup>*"
      by (intro ins) simp
  next
    show "onConnect [mk_node ''1'', mk_node ''2'', mk_node ''3'']
       [mk_edge ''1'' ''2'', mk_edge ''2'' ''3'']
       \<lparr>conn_source = ''3'', conn_target = ''1''\<rparr> =
     ([mk_edge ''1'' ''2'', mk_edge ''2'' ''3''],
      Some (ToastError ''Connection would create a cycle''))" by (rule scen)
  next
    show "length (fst (onConnect [mk_node ''1'', mk_node ''2'', mk_node ''3'']
       [mk_edge ''1'' ''2'', mk_edge ''2'' ''3'']
       \<lparr>conn_source = ''3'', conn_target = ''1''\<rparr>)) = 2" by (rule len)
  qed
qed

theorem connect_succeeds_iff_no_reachable_cycle_witness:
  "acyclic (edge_rel [mk_edge ''1'' ''2'']) \<and>
   ''2'' \<in> node_ids [mk_node ''1'', mk_node ''2'', mk_node ''3''] \<and>
   ''3'' \<in> node_ids [mk_node ''1'', mk_node ''2'', mk_node ''3''] \<and>
   ''2'' \<noteq> ''3'' \<and>
   (''3'', ''2'') \<notin> (edge_rel [mk_edge ''1'' ''2''])\<^sup>* \<and>
   acyclic (insert (''2'', ''3'') (edge_rel [mk_edge ''1'' ''2''])) \<and>
   onConnect [mk_node ''1'', mk_node ''2'', mk_node ''3''] [mk_edge ''1'' ''2'']
       \<lparr>conn_source = ''2'', conn_target = ''3''\<rparr> =
     ([mk_edge ''1'' ''2'', mk_edge ''2'' ''3''], None)"
proof -
  let ?nodes = "[mk_node ''1'', mk_node ''2'', mk_node ''3'']"
  let ?edges = "[mk_edge ''1'' ''2'']"
  have wf: "edges_reference_nodes ?nodes ?edges"
    by (simp add: edges_reference_nodes_def node_ids_def mk_node_def mk_edge_def)
  have "\<not> hasCycle ?nodes ?edges" by code_simp
  with wf have ac: "acyclic (edge_rel ?edges)" by (simp add: hasCycle_well_formed)
  have ids: "''2'' \<in> node_ids ?nodes" "''3'' \<in> node_ids ?nodes"
    by (simp_all add: node_ids_def mk_node_def)
  have ne: "''2'' \<noteq> ''3''" by simp
  have nc: "\<not> wouldCreateCycle ?nodes ?edges ''2'' ''3''" by code_simp
  then have ok: "onConnect ?nodes ?edges \<lparr>conn_source = ''2'', conn_target = ''3''\<rparr> =
      ([mk_edge ''1'' ''2'', mk_edge ''2'' ''3''], None)"
    by (simp add: onConnect_def isValidConnection_def addEdge_def mk_edge_def)
  note T = connect_succeeds_iff_no_reachable_cycle[of "''2''" "''3''" ?nodes ?edges,
      THEN conjunct2, THEN conjunct1, rule_format]
  from ac ids ne have h: "acyclic (edge_rel ?edges) \<and> ''2'' \<in> node_ids ?nodes \<and>
      ''3'' \<in> node_ids ?nodes \<and> ''2'' \<noteq> ''3''" by blast
  from T[OF h] have D: "onConnect ?nodes ?edges \<lparr>conn_source = ''2'', conn_target = ''3''\<rparr> =
        (if (''3'', ''2'') \<in> (edge_rel ?edges)\<^sup>*
         then (?edges, Some (ToastError ''Connection would create a cycle''))
         else (?edges @ [\<lparr>source = ''2'', target = ''3'', edge_selected = False\<rparr>], None))"
    and I: "acyclic (insert (''2'', ''3'') (edge_rel ?edges)) \<longleftrightarrow>
        (''3'', ''2'') \<notin> (edge_rel ?edges)\<^sup>*" by blast+
  have unreach: "(''3'', ''2'') \<notin> (edge_rel ?edges)\<^sup>*"
  proof
    assume "(''3'', ''2'') \<in> (edge_rel ?edges)\<^sup>*"
    with D have "onConnect ?nodes ?edges \<lparr>conn_source = ''2'', conn_target = ''3''\<rparr> =
        (?edges, Some (ToastError ''Connection would create a cycle''))" by simp
    with ok show False by simp
  qed
  with I have "acyclic (insert (''2'', ''3'') (edge_rel ?edges))" by blast
  with ac ids ne unreach ok show ?thesis by blast
qed

text \<open>
  C5.  For every graph and every node id \<open>u\<close>, \<open>wouldCreateCycle\<close> answers \<open>true\<close> for
  the proposed edge \<open>u \<rightarrow> u\<close>; \<open>isValidConnection\<close> rejects a connection whose source
  equals its target before any search is run.
\<close>

theorem wouldCreateCycle_self_loop:
  "(u \<in> node_ids nodes \<longrightarrow> wouldCreateCycle nodes edges u u) \<and>
   \<not> isValidConnection nodes edges \<lparr>conn_source = u, conn_target = u\<rparr>"
proof (intro conjI impI)
  assume u: "u \<in> node_ids nodes"
  let ?E = "insert (u, u) (edge_rel edges)"
  from u have "u \<in> ?E\<^sup>* `` node_ids nodes" by auto
  moreover have "(u, u) \<in> ?E\<^sup>+" by auto
  ultimately show "wouldCreateCycle nodes edges u u"
    unfolding wouldCreateCycle_iff by blast
next
  show "\<not> isValidConnection nodes edges \<lparr>conn_source = u, conn_target = u\<rparr>"
    by (simp add: isValidConnection_def)
qed

theorem wouldCreateCycle_self_loop_witness:
  "''2'' \<in> node_ids [mk_node ''1'', mk_node ''2''] \<and>
   wouldCreateCycle [mk_node ''1'', mk_node ''2''] [mk_edge ''1'' ''2''] ''2'' ''2''"
proof -
  have "''2'' \<in> node_ids [mk_node ''1'', mk_node ''2'']"
    by (simp add: node_ids_def mk_node_def)
  with wouldCreateCycle_self_loop[of "''2''" "[mk_node ''1'', mk_node ''2'']" "[mk_edge ''1'' ''2'']"]
  show ?thesis by blast
qed

text \<open>
  C10.  The validation hook has no check for dangling references.  A cycle error is
  reported only for a cycle that can be reached from a node of the node collection, so a
  cycle all of whose vertices are unreachable from the present nodes produces no cycle
  error.  Nodes 1, 2 with the edges 1\<rightarrow>2, 3\<rightarrow>4, 4\<rightarrow>3 have dangling edges and a directed
  cycle, and the report is valid with an empty error list.
\<close>

theorem validate_ignores_dangling_edges:
  "((\<forall>x. (x, x) \<in> (edge_rel edges)\<^sup>+ \<longrightarrow> x \<notin> (edge_rel edges)\<^sup>* `` node_ids nodes) \<longrightarrow>
      cycle_error \<notin> set (errors (useDAGValidation nodes edges))) \<and>
   \<not> edges_reference_nodes [mk_node ''1'', mk_node ''2'']
        [mk_edge ''1'' ''2'', mk_edge ''3'' ''4'', mk_edge ''4'' ''3''] \<and>
   \<not> acyclic (edge_rel [mk_edge ''1'' ''2'', mk_edge ''3'' ''4'', mk_edge ''4'' ''3'']) \<and>
   isValid (useDAGValidation [mk_node ''1'', mk_node ''2'']
        [mk_edge ''1'' ''2'', mk_edge ''3'' ''4'', mk_edge ''4'' ''3'']) \<and>
   errors (useDAGValidation [mk_node ''1'', mk_node ''2'']
        [mk_edge ''1'' ''2'', mk_edge ''3'' ''4'', mk_edge ''4'' ''3'']) = []"
proof -
  let ?nodes = "[mk_node ''1'', mk_node ''2'']"
  let ?edges = "[mk_edge ''1'' ''2'', mk_edge ''3'' ''4'', mk_edge ''4'' ''3'']"
  have general: "cycle_error \<notin> set (errors (useDAGValidation nodes edges))"
    if "\<forall>x. (x, x) \<in> (edge_rel edges)\<^sup>+ \<longrightarrow> x \<notin> (edge_rel edges)\<^sup>* `` node_ids nodes"
    using that unfolding cycle_error_in_errors hasCycle_iff by blast
  have dangling: "\<not> edges_reference_nodes ?nodes ?edges"
    by (simp add: edges_reference_nodes_def node_ids_def mk_node_def mk_edge_def)
  have "(''3'', ''4'') \<in> edge_rel ?edges" "(''4'', ''3'') \<in> edge_rel ?edges"
    by (simp_all add: edge_rel_def mk_edge_def)
  then have "(''3'', ''3'') \<in> (edge_rel ?edges)\<^sup>+" by (meson trancl.simps)
  then have cyc: "\<not> acyclic (edge_rel ?edges)" by (auto simp: acyclic_def)
  have nc: "\<not> hasCycle ?nodes ?edges" by code_simp
  have errs: "errors (useDAGValidation ?nodes ?edges) = []"
    using nc by (simp add: useDAGValidation_def Let_def mk_edge_def)
  have valid: "isValid (useDAGValidation ?nodes ?edges)"
    using nc by (simp add: useDAGValidation_def Let_def mk_edge_def)
  from general dangling cyc errs valid show ?thesis by blast
qed

theorem validate_ignores_dangling_edges_witness:
  "\<not> (\<exists>x. (x, x) \<in> (edge_rel [mk_edge ''1'' ''2'', mk_edge ''3'' ''4'', mk_edge ''4'' ''3''])\<^sup>+ \<and>
        x \<in> (edge_rel [mk_edge ''1'' ''2'', mk_edge ''3'' ''4'', mk_edge ''4'' ''3''])\<^sup>* ``
              node_ids [mk_node ''1'', mk_node ''2'']) \<and>
   cycle_error \<notin> set (errors (useDAGValidation [mk_node ''1'', mk_node ''2'']
        [mk_edge ''1'' ''2'', mk_edge ''3'' ''4'', mk_edge ''4'' ''3'']))"
proof -
  let ?nodes = "[mk_node ''1'', mk_node ''2'']"
  let ?edges = "[mk_edge ''1'' ''2'', mk_edge ''3'' ''4'', mk_edge ''4'' ''3'']"
  have nc: "\<not> hasCycle ?nodes ?edges" by code_simp
  then have hyp: "\<forall>x. (x, x) \<in> (edge_rel ?edges)\<^sup>+ \<longrightarrow>
      x \<notin> (edge_rel ?edges)\<^sup>* `` node_ids ?nodes"
    unfolding hasCycle_iff by blast
  with validate_ignores_dangling_edges[of ?edges ?nodes]
  have "cycle_error \<notin> set (errors (useDAGValidation ?nodes ?edges))" by blast
  with hyp show ?thesis by blast
qed

lemma buildAdjacencyList_ids:
  "buildAdjacencyList nodes edges =
     fold (\<lambda>(src, tgt). push_edge src tgt) (map (\<lambda>edge. (source edge, target edge)) edges)
       (fold (\<lambda>i adjacencyList. AList.update i [] adjacencyList) (map node_id nodes) [])"
  by (simp add: buildAdjacencyList_def fold_map comp_def)

lemma dfs_all_ids:
  "map node_id nodes = map node_id nodes' \<Longrightarrow>
     dfs_all adjacencyList nodes st = dfs_all adjacencyList nodes' st"
proof (induction nodes arbitrary: nodes' st)
  case Nil
  then show ?case by simp
next
  case (Cons node rest)
  then obtain node' rest' where n': "nodes' = node' # rest'"
    and i: "node_id node = node_id node'" and r: "map node_id rest = map node_id rest'"
    by (cases nodes') auto
  obtain visited recStack where st: "st = (visited, recStack)" by (cases st)
  show ?case unfolding n' st using i Cons.IH[OF r]
    by (simp split: prod.splits)
qed

lemma self_loops_ids:
  "length (filter (\<lambda>edge. source edge = target edge) edges) =
     length (filter (\<lambda>(src, tgt). src = tgt) (map (\<lambda>edge. (source edge, target edge)) edges))"
  by (simp add: filter_map comp_def)

lemma connectedNodes_ids:
  "connectedNodes edges =
     set (concat (map (\<lambda>(src, tgt). [src, tgt]) (map (\<lambda>edge. (source edge, target edge)) edges)))"
  by (simp add: connectedNodes_def comp_def)

text \<open>
  C8.  The validation report is a function of the node and edge collections alone; it
  is already determined by the sequence of node ids and the sequence of edge endpoints.
  Two runs on identical collections therefore give the same validity flag, the same
  errors in the same order and the same warnings in the same order.
\<close>

theorem validate_deterministic:
  assumes "map node_id nodes = map node_id nodes'"
    and "map (\<lambda>edge. (source edge, target edge)) edges =
         map (\<lambda>edge. (source edge, target edge)) edges'"
  shows "useDAGValidation nodes edges = useDAGValidation nodes' edges'"
proof -
  from assms(1) have ln: "length nodes = length nodes'" by (rule map_eq_imp_length_eq)
  from assms(2) have le: "length edges = length edges'" by (rule map_eq_imp_length_eq)
  have adj: "buildAdjacencyList nodes edges = buildAdjacencyList nodes' edges'"
    unfolding buildAdjacencyList_ids assms ..
  have hc: "hasCycle nodes edges = hasCycle nodes' edges'"
    unfolding hasCycle_def adj by (rule dfs_all_ids[OF assms(1)])
  have sl: "length (filter (\<lambda>edge. source edge = target edge) edges) =
      length (filter (\<lambda>edge. source edge = target edge) edges')"
    unfolding self_loops_ids assms ..
  have cn: "connectedNodes edges = connectedNodes edges'"
    unfolding connectedNodes_ids assms ..
  show ?thesis
    unfolding useDAGValidation_def Let_def ln le hc sl cn ..
qed

theorem validate_deterministic_witness:
  "map node_id [mk_node ''1'', mk_node ''2''] =
     map node_id [\<lparr>node_id = ''1'', node_selected = True, position = (3, 4), label = ''a''\<rparr>,
                  mk_node ''2''] \<and>
   useDAGValidation [mk_node ''1'', mk_node ''2''] [mk_edge ''1'' ''2''] =
     useDAGValidation [\<lparr>node_id = ''1'', node_selected = True, position = (3, 4), label = ''a''\<rparr>,
                  mk_node ''2''] [mk_edge ''1'' ''2''] \<and>
   useDAGValidation [mk_node ''1'', mk_node ''2''] [mk_edge ''1'' ''2''] =
     \<lparr>isValid = True, errors = [], warnings = []\<rparr>"
proof -
  let ?n = "[mk_node ''1'', mk_node ''2'']"
  let ?n' = "[\<lparr>node_id = ''1'', node_selected = True, position = (3, 4), label = ''a''\<rparr>,
                  mk_node ''2'']"
  have ids: "map node_id ?n = map node_id ?n'" by (simp add: mk_node_def)
  have nc: "\<not> hasCycle ?n [mk_edge ''1'' ''2'']" by code_simp
  have v: "useDAGValidation ?n [mk_edge ''1'' ''2''] = \<lparr>isValid = True, errors = [], warnings = []\<rparr>"
    using nc by (simp add: useDAGValidation_def Let_def mk_edge_def connectedNodes_def)
  from validate_deterministic[OF ids refl, of "[mk_edge ''1'' ''2'']"] ids v
  show ?thesis by simp
qed

section \<open>JavaScript numbers\<close>

text \<open>
  \<open>nodeIdCounter\<close> is a JavaScript number, that is, a double.  The values it takes in the
  editor are integers, \<open>-Infinity\<close> (\<open>Math.max\<close> of no arguments), \<open>Infinity\<close> and, inside
  \<open>onImport\<close>, \<open>NaN\<close>.  \<open>Num n\<close> is the double whose value is the integer \<open>n\<close>.
\<close>

datatype js_number = Num int | PosInfinity | NegInfinity | NaN

text \<open>
  The spacing of the doubles around an integer of magnitude \<open>a\<close>: 1 below \<open>2^53\<close>, and
  doubled with every further binary digit.
\<close>

fun ulp_nat :: "nat \<Rightarrow> nat" where
  "ulp_nat a = (if a < 9007199254740992 then 1 else 2 * ulp_nat (a div 2))"

declare ulp_nat.simps [simp del]

text \<open>
  The double nearest to an integer, ties going to the even mantissa, with overflow to the
  infinities from \<open>2^1024\<close> on.
\<close>

definition round_double :: "int \<Rightarrow> js_number" where
  "round_double m =
     (let u = int (ulp_nat (nat \<bar>m\<bar>)); q = m div u; r = m mod u;
          v = (if 2 * r < u then q * u
               else if u < 2 * r then (q + 1) * u
               else if even q then q * u else (q + 1) * u)
      in if 2 ^ 1024 \<le> v then PosInfinity
         else if v \<le> - (2 ^ 1024) then NegInfinity
         else Num v)"

text \<open>\<open>prev + 1\<close> on a counter value.\<close>

fun js_plus_one :: "js_number \<Rightarrow> js_number" where
  "js_plus_one (Num n) = round_double (n + 1)"
| "js_plus_one PosInfinity = PosInfinity"
| "js_plus_one NegInfinity = NegInfinity"
| "js_plus_one NaN = NaN"

text \<open>The decimal digits of a natural number.\<close>

definition digit_char :: "nat \<Rightarrow> char" where
  "digit_char d = char_of (48 + d)"

fun toString :: "nat \<Rightarrow> string" where
  "toString n = (if n < 10 then [digit_char n] else toString (n div 10) @ [digit_char (n mod 10)])"

text \<open>
  \<open>Number.prototype.toString\<close> on a counter value: decimal digits with a sign below
  \<open>10^21\<close> in magnitude.  From \<open>10^21\<close> on the platform prints exponential notation,
  which is the argument \<open>exponential\<close> here.
\<close>

fun js_toString :: "(int \<Rightarrow> string) \<Rightarrow> js_number \<Rightarrow> string" where
  "js_toString exponential (Num n) =
     (if \<bar>n\<bar> < 1000000000000000000000
      then (if n < 0 then CHR ''-'' # toString (nat (- n)) else toString (nat n))
      else exponential n)"
| "js_toString exponential PosInfinity = ''Infinity''"
| "js_toString exponential NegInfinity = ''-Infinity''"
| "js_toString exponential NaN = ''NaN''"

text \<open>\<open>Math.max\<close> of two numbers, and of a list of arguments.\<close>

fun js_max :: "js_number \<Rightarrow> js_number \<Rightarrow> js_number" where
  "js_max NaN y = NaN"
| "js_max x NaN = NaN"
| "js_max PosInfinity y = PosInfinity"
| "js_max x PosInfinity = PosInfinity"
| "js_max NegInfinity y = y"
| "js_max x NegInfinity = x"
| "js_max (Num a) (Num b) = Num (max a b)"

fun Math_max :: "js_number list \<Rightarrow> js_number" where
  "Math_max [] = NegInfinity"
| "Math_max (x # xs) = js_max x (Math_max xs)"

lemma ulp_nat_small: "a < 9007199254740992 \<Longrightarrow> ulp_nat a = 1"
  by (simp add: ulp_nat.simps)



text \<open>At \<open>2^53\<close> the counter stops growing, and \<open>-Infinity\<close> stays \<open>-Infinity\<close>.\<close>

lemma round_double_stuck: "round_double 9007199254740993 = Num 9007199254740992"
proof -
  have "ulp_nat 9007199254740993 = 2 * ulp_nat 4503599627370496"
    by (subst ulp_nat.simps) simp
  then have u: "ulp_nat (nat \<bar>9007199254740993\<bar>) = 2" by (simp add: ulp_nat_small)
  have q: "(9007199254740993::int) div int 2 = 4503599627370496" by simp
  have r: "(9007199254740993::int) mod int 2 = 1" by simp
  have e: "even (4503599627370496::int)" by simp
  have hi: "\<not> (2::int) ^ 1024 \<le> 9007199254740992" by simp
  have lo: "\<not> (9007199254740992::int) \<le> - (2 ^ 1024)" by simp
  show ?thesis
    unfolding round_double_def u Let_def q r
    by (simp only: e hi lo if_True if_False mult_1 mult_1_right less_irrefl of_nat_numeral)
       simp
qed

lemma js_plus_one_stuck: "js_plus_one (Num 9007199254740992) = Num 9007199254740992"
  by (simp add: round_double_stuck)






declare toString.simps [simp del]




section \<open>The editor session\<close>

text \<open>
  The component state of \<open>DAGEditorInner\<close>: the \<open>nodes\<close> and \<open>edges\<close> arrays and the
  number \<open>nodeIdCounter\<close> (initially 1).
\<close>

record editor =
  cur_nodes :: "node list"
  cur_edges :: "edge list"
  nodeIdCounter :: js_number


text \<open>
  \<open>onAddNode\<close>: the id is \<open>nodeIdCounter.toString()\<close>, and the counter becomes
  \<open>prev + 1\<close>.  The position is drawn with \<open>Math.random\<close> and is an argument here.  A
  new node carries no \<open>selected\<close> flag.
\<close>

definition onAddNode :: "(int \<Rightarrow> string) \<Rightarrow> string \<Rightarrow> real \<times> real \<Rightarrow> editor \<Rightarrow> editor" where
  "onAddNode exponential lbl pos st =
     (let newNode = \<lparr>node_id = js_toString exponential (nodeIdCounter st),
                      node_selected = False, position = pos, label = lbl\<rparr>
      in st\<lparr>cur_nodes := cur_nodes st @ [newNode],
             nodeIdCounter := js_plus_one (nodeIdCounter st)\<rparr>)"

text \<open>\<open>onClear\<close>; the argument is the answer to the \<open>confirm\<close> dialog.\<close>

definition onClear :: "bool \<Rightarrow> editor \<Rightarrow> editor" where
  "onClear confirmed st =
     (if confirmed then st\<lparr>cur_nodes := [], cur_edges := [], nodeIdCounter := Num 1\<rparr> else st)"

text \<open>The \<open>Delete\<close>/\<open>Backspace\<close> branch of \<open>handleKeyDown\<close>.\<close>

definition handleKeyDown_delete :: "editor \<Rightarrow> editor" where
  "handleKeyDown_delete st =
     (let selectedNodes = filter node_selected (cur_nodes st);
          selectedEdges = filter edge_selected (cur_edges st)
      in if length selectedNodes > 0 \<or> length selectedEdges > 0
         then st\<lparr>cur_nodes := filter (\<lambda>node. \<not> node_selected node) (cur_nodes st),
                 cur_edges := filter (\<lambda>edge. \<not> edge_selected edge) (cur_edges st)\<rparr>
         else st)"

text \<open>
  Modelled from the spec: the \<open>selected\<close> flags are set by React Flow's change handlers
  (\<open>onNodesChange\<close>, \<open>onEdgesChange\<close>), which are not part of the sources.  The
  specification's \<open>deleteSelection(nodeIds, edgeIds)\<close> names the nodes and edges to
  remove; here picking them sets exactly their flags.  The model's edges carry no id and
  are picked by their endpoints.
\<close>

definition select_elements :: "string list \<Rightarrow> (string \<times> string) list \<Rightarrow> editor \<Rightarrow> editor" where
  "select_elements nodeIds edgeEnds st =
     st\<lparr>cur_nodes := map (\<lambda>node. node\<lparr>node_selected := (node_id node \<in> set nodeIds)\<rparr>)
                         (cur_nodes st),
        cur_edges := map (\<lambda>edge. edge\<lparr>edge_selected := ((source edge, target edge) \<in> set edgeEnds)\<rparr>)
                         (cur_edges st)\<rparr>"

definition connect :: "connection \<Rightarrow> editor \<Rightarrow> editor" where
  "connect params st = st\<lparr>cur_edges := fst (onConnect (cur_nodes st) (cur_edges st) params)\<rparr>"

text \<open>
  \<open>onAutoLayout\<close> stores what \<open>getLayoutedElements\<close> returns.  That function lives in
  \<open>utils/autoLayout\<close>; here it is an argument.
\<close>

definition onAutoLayout ::
  "(node list \<Rightarrow> edge list \<Rightarrow> node list \<times> edge list) \<Rightarrow> editor \<Rightarrow> editor" where
  "onAutoLayout getLayoutedElements st =
     (let (layoutedNodes, layoutedEdges) = getLayoutedElements (cur_nodes st) (cur_edges st)
      in st\<lparr>cur_nodes := layoutedNodes, cur_edges := layoutedEdges\<rparr>)"

text \<open>
  The operations of a session.  \<open>DeleteSelection\<close> picks the named nodes and edges and
  then runs the key handler; \<open>Clear\<close> is a confirmed \<open>onClear\<close>.
\<close>

datatype session_op =
    AddNode string "real \<times> real"
  | DeleteSelection "string list" "(string \<times> string) list"
  | Clear
  | Connect connection
  | AutoLayout

fun apply_op ::
  "(int \<Rightarrow> string) \<Rightarrow> (node list \<Rightarrow> edge list \<Rightarrow> node list \<times> edge list) \<Rightarrow>
   editor \<Rightarrow> session_op \<Rightarrow> editor" where
  "apply_op exponential layout st (AddNode lbl pos) = onAddNode exponential lbl pos st"
| "apply_op exponential layout st (DeleteSelection nodeIds edgeEnds) =
     handleKeyDown_delete (select_elements nodeIds edgeEnds st)"
| "apply_op exponential layout st Clear = onClear True st"
| "apply_op exponential layout st (Connect params) = connect params st"
| "apply_op exponential layout st AutoLayout = onAutoLayout layout st"


text \<open>
  The ids allocated by the \<open>AddNode\<close> operations of a run, in order: each is read off the
  node that \<open>onAddNode\<close> has appended.
\<close>

fun allocated_ids ::
  "(int \<Rightarrow> string) \<Rightarrow> (node list \<Rightarrow> edge list \<Rightarrow> node list \<times> edge list) \<Rightarrow>
   editor \<Rightarrow> session_op list \<Rightarrow> string list" where
  "allocated_ids exponential layout st [] = []"
| "allocated_ids exponential layout st (AddNode lbl pos # ops) =
     node_id (last (cur_nodes (apply_op exponential layout st (AddNode lbl pos))))
       # allocated_ids exponential layout (apply_op exponential layout st (AddNode lbl pos)) ops"
| "allocated_ids exponential layout st (opn # ops) =
     allocated_ids exponential layout (apply_op exponential layout st opn) ops"




text \<open>
  Without the bound on the counter the ids do repeat: at \<open>2^53\<close> the counter no longer
  changes, and after an import of an empty node array it is \<open>-Infinity\<close>.
\<close>

lemma ids_repeat_at_2_53:
  "allocated_ids exponential layout (st\<lparr>nodeIdCounter := Num 9007199254740992\<rparr>)
     [AddNode ''a'' (0, 0), AddNode ''b'' (0, 0)] =
   [toString 9007199254740992, toString 9007199254740992]"
  by (simp add: onAddNode_def Let_def round_double_stuck)

lemma ids_repeat_at_minus_infinity:
  "allocated_ids exponential layout (st\<lparr>nodeIdCounter := NegInfinity\<rparr>)
     [AddNode ''a'' (0, 0), AddNode ''b'' (0, 0)] = [''-Infinity'', ''-Infinity'']"
  by (simp add: onAddNode_def Let_def)




text \<open>
  C3 as stated fails: the delete handler filters on the \<open>selected\<close> flags only.  With
  node 1 selected and the unselected edge 1\<rightarrow>2, the edge survives the removal of node 1.
\<close>

definition dangling_example :: editor where
  "dangling_example =
     \<lparr>cur_nodes = [\<lparr>node_id = ''1'', node_selected = True, position = (0, 0), label = ''a''\<rparr>,
                   \<lparr>node_id = ''2'', node_selected = False, position = (0, 0), label = ''b''\<rparr>],
      cur_edges = [\<lparr>source = ''1'', target = ''2'', edge_selected = False\<rparr>],
      nodeIdCounter = Num 3\<rparr>"

theorem delete_leaves_dangling_edge:
  "edges_reference_nodes (cur_nodes dangling_example) (cur_edges dangling_example) \<and>
   map node_id (cur_nodes (handleKeyDown_delete dangling_example)) = [''2''] \<and>
   cur_edges (handleKeyDown_delete dangling_example) =
     [\<lparr>source = ''1'', target = ''2'', edge_selected = False\<rparr>] \<and>
   \<not> edges_reference_nodes (cur_nodes (handleKeyDown_delete dangling_example))
        (cur_edges (handleKeyDown_delete dangling_example))"
  by (simp add: dangling_example_def handleKeyDown_delete_def edges_reference_nodes_def
      node_ids_def)

text \<open>
  C3, amended.  The delete operation removes, in one step, exactly the selected nodes and
  the selected edges.  When every edge references present nodes and every edge whose
  source or target is a selected node is itself selected, no edge of the resulting graph
  references a node id absent from the resulting node collection.
\<close>

theorem delete_selected_keeps_references:
  "cur_nodes (handleKeyDown_delete st) = filter (\<lambda>node. \<not> node_selected node) (cur_nodes st) \<and>
   cur_edges (handleKeyDown_delete st) = filter (\<lambda>edge. \<not> edge_selected edge) (cur_edges st) \<and>
   (edges_reference_nodes (cur_nodes st) (cur_edges st) \<and>
    (\<forall>edge \<in> set (cur_edges st). \<forall>node \<in> set (cur_nodes st).
        node_selected node \<and> (source edge = node_id node \<or> target edge = node_id node) \<longrightarrow>
        edge_selected edge) \<longrightarrow>
    edges_reference_nodes (cur_nodes (handleKeyDown_delete st))
      (cur_edges (handleKeyDown_delete st)))"
proof -
  have n: "cur_nodes (handleKeyDown_delete st) =
      filter (\<lambda>node. \<not> node_selected node) (cur_nodes st)"
    by (auto simp: handleKeyDown_delete_def Let_def filter_empty_conv intro!: filter_True[symmetric])
  have e: "cur_edges (handleKeyDown_delete st) =
      filter (\<lambda>edge. \<not> edge_selected edge) (cur_edges st)"
    by (auto simp: handleKeyDown_delete_def Let_def filter_empty_conv intro!: filter_True[symmetric])
  have "edges_reference_nodes (filter (\<lambda>node. \<not> node_selected node) (cur_nodes st))
      (filter (\<lambda>edge. \<not> edge_selected edge) (cur_edges st))"
    if wf: "edges_reference_nodes (cur_nodes st) (cur_edges st)"
      and sel: "\<forall>edge \<in> set (cur_edges st). \<forall>node \<in> set (cur_nodes st).
        node_selected node \<and> (source edge = node_id node \<or> target edge = node_id node) \<longrightarrow>
        edge_selected edge"
    unfolding edges_reference_nodes_def node_ids_def
  proof (intro ballI conjI)
    fix edge assume "edge \<in> set (filter (\<lambda>edge. \<not> edge_selected edge) (cur_edges st))"
    then have ed: "edge \<in> set (cur_edges st)" "\<not> edge_selected edge" by auto
    from wf ed(1) obtain a b where a: "a \<in> set (cur_nodes st)" "source edge = node_id a"
      and b: "b \<in> set (cur_nodes st)" "target edge = node_id b"
      by (auto simp: edges_reference_nodes_def node_ids_def)
    from sel ed a have "\<not> node_selected a" by blast
    with a show "source edge \<in> node_id ` set (filter (\<lambda>node. \<not> node_selected node) (cur_nodes st))"
      by auto
    from sel ed b have "\<not> node_selected b" by blast
    with b show "target edge \<in> node_id ` set (filter (\<lambda>node. \<not> node_selected node) (cur_nodes st))"
      by auto
  qed
  with n e show ?thesis by simp
qed

definition cascade_example :: editor where
  "cascade_example =
     \<lparr>cur_nodes = [\<lparr>node_id = ''1'', node_selected = True, position = (0, 0), label = ''a''\<rparr>,
                   \<lparr>node_id = ''2'', node_selected = False, position = (0, 0), label = ''b''\<rparr>,
                   \<lparr>node_id = ''3'', node_selected = False, position = (0, 0), label = ''c''\<rparr>],
      cur_edges = [\<lparr>source = ''1'', target = ''2'', edge_selected = True\<rparr>,
                   \<lparr>source = ''2'', target = ''3'', edge_selected = False\<rparr>],
      nodeIdCounter = Num 4\<rparr>"

theorem delete_selected_keeps_references_witness:
  "edges_reference_nodes (cur_nodes cascade_example) (cur_edges cascade_example) \<and>
   map node_id (cur_nodes (handleKeyDown_delete cascade_example)) = [''2'', ''3''] \<and>
   cur_edges (handleKeyDown_delete cascade_example) =
     [\<lparr>source = ''2'', target = ''3'', edge_selected = False\<rparr>] \<and>
   edges_reference_nodes (cur_nodes (handleKeyDown_delete cascade_example))
     (cur_edges (handleKeyDown_delete cascade_example))"
proof -
  have wf: "edges_reference_nodes (cur_nodes cascade_example) (cur_edges cascade_example)"
    by (simp add: cascade_example_def edges_reference_nodes_def node_ids_def)
  have sel: "\<forall>edge \<in> set (cur_edges cascade_example). \<forall>node \<in> set (cur_nodes cascade_example).
        node_selected node \<and> (source edge = node_id node \<or> target edge = node_id node) \<longrightarrow>
        edge_selected edge"
    by (simp add: cascade_example_def)
  from delete_selected_keeps_references[of cascade_example] wf sel
  have "edges_reference_nodes (cur_nodes (handleKeyDown_delete cascade_example))
     (cur_edges (handleKeyDown_delete cascade_example))" by blast
  moreover have "map node_id (cur_nodes (handleKeyDown_delete cascade_example)) = [''2'', ''3'']"
    "cur_edges (handleKeyDown_delete cascade_example) =
       [\<lparr>source = ''2'', target = ''3'', edge_selected = False\<rparr>]"
    by (simp_all add: cascade_example_def handleKeyDown_delete_def)
  ultimately show ?thesis using wf by blast
qed

section \<open>Import and export\<close>

text \<open>
  \<open>onImport\<close> stores whatever \<open>JSON.parse\<close> returns, so this part of the model works on
  JSON values.  \<open>JSON.parse\<close> and \<open>JSON.stringify\<close> belong to the platform: the import
  handler is modelled from the parsed value on (\<open>None\<close> when \<open>JSON.parse\<close> throws), and
  a JSON value written by \<open>JSON.stringify\<close> is taken to be read back unchanged.
\<close>

datatype json =
    JNull
  | JBool bool
  | JNumber real
  | JString string
  | JArray "json list"
  | JObject "(string \<times> json) list"

datatype js_error = TypeError | SyntaxError

text \<open>
  Reading a property \<open>v.k\<close> for one of the names \<open>nodes\<close>, \<open>edges\<close>, \<open>id\<close>: it throws
  on \<open>null\<close>, gives the member of an object, and is \<open>undefined\<close> (\<open>None\<close>) otherwise.
\<close>

fun get_prop :: "json \<Rightarrow> string \<Rightarrow> js_error + json option" where
  "get_prop JNull k = Inl TypeError"
| "get_prop (JObject members) k = Inr (map_of members k)"
| "get_prop v k = Inr None"

text \<open>JavaScript truthiness of a parsed JSON value.\<close>

fun truthy :: "json \<Rightarrow> bool" where
  "truthy JNull = False"
| "truthy (JBool b) = b"
| "truthy (JNumber x) = (x \<noteq> 0)"
| "truthy (JString s) = (s \<noteq> [])"
| "truthy (JArray vs) = True"
| "truthy (JObject members) = True"

text \<open>
  The counter after an import is \<open>Math.max(...) + 1\<close>, which is \<open>-Infinity\<close> for an empty
  node array.
\<close>

record js_state =
  js_nodes :: json
  js_edges :: json
  js_nodeIdCounter :: js_number

text \<open>
  \<open>data.nodes.map((n) => parseInt(n.id) || 0)\<close>.  \<open>parseInt\<close> is the platform's and is
  an argument here.  \<open>NaN || 0\<close> and \<open>0 || 0\<close> are \<open>0\<close>; every other number is truthy.
\<close>

fun map_parseInt_id ::
  "(json option \<Rightarrow> js_number) \<Rightarrow> json list \<Rightarrow> js_error + js_number list" where
  "map_parseInt_id parseInt [] = Inr []"
| "map_parseInt_id parseInt (n # ns) =
     (case get_prop n ''id'' of
        Inl e \<Rightarrow> Inl e
      | Inr v \<Rightarrow>
          (case map_parseInt_id parseInt ns of
             Inl e \<Rightarrow> Inl e
           | Inr ids \<Rightarrow> Inr ((if parseInt v = NaN then Num 0 else parseInt v) # ids)))"

definition invalid_file_toast :: toast where
  "invalid_file_toast = ToastError ''Invalid file format. Please select a valid DAG export file.''"

definition imported_toast :: toast where
  "imported_toast = ToastSuccess ''Graph imported successfully''"

text \<open>
  The \<open>reader.onload\<close> callback of \<open>onImport\<close>.  The two state setters run before the
  counter is computed, so a \<open>TypeError\<close> raised there is caught after the nodes and edges
  have been replaced.  A truthy value that is not an array has no callable \<open>map\<close>.
\<close>

definition onImport ::
  "(json option \<Rightarrow> js_number) \<Rightarrow> json option \<Rightarrow> js_state \<Rightarrow> js_state \<times> toast option" where
  "onImport parseInt parsed st =
     (case parsed of
        None \<Rightarrow> (st, Some invalid_file_toast)
      | Some data \<Rightarrow>
          (case get_prop data ''nodes'' of
             Inl e \<Rightarrow> (st, Some invalid_file_toast)
           | Inr None \<Rightarrow> (st, None)
           | Inr (Some data_nodes) \<Rightarrow>
               if \<not> truthy data_nodes then (st, None)
               else
                 (case get_prop data ''edges'' of
                    Inl e \<Rightarrow> (st, Some invalid_file_toast)
                  | Inr None \<Rightarrow> (st, None)
                  | Inr (Some data_edges) \<Rightarrow>
                      if \<not> truthy data_edges then (st, None)
                      else
                        (let st1 = st\<lparr>js_nodes := data_nodes, js_edges := data_edges\<rparr>
                         in case data_nodes of
                              JArray ns \<Rightarrow>
                                (case map_parseInt_id parseInt ns of
                                   Inl e \<Rightarrow> (st1, Some invalid_file_toast)
                                 | Inr ids \<Rightarrow>
                                     (st1\<lparr>js_nodeIdCounter := js_plus_one (Math_max ids)\<rparr>,
                                      Some imported_toast))
                            | _ \<Rightarrow> (st1, Some invalid_file_toast)))))"

text \<open>
  The object that \<open>onExport\<close> serialises; \<open>graphName\<close> is \<open>selectedGraph?.name\<close> and
  \<open>now\<close> the ISO timestamp.
\<close>

definition onExport :: "string option \<Rightarrow> string \<Rightarrow> js_state \<Rightarrow> json" where
  "onExport graphName now st =
     JObject [(''nodes'', js_nodes st), (''edges'', js_edges st),
              (''graphName'', JString (case graphName of
                   None \<Rightarrow> ''Untitled Graph''
                 | Some name \<Rightarrow> if name = [] then ''Untitled Graph'' else name)),
              (''timestamp'', JString now)]"

text \<open>The JavaScript objects behind the typed nodes and edges.\<close>

definition node_to_json :: "node \<Rightarrow> json" where
  "node_to_json n =
     JObject [(''id'', JString (node_id n)), (''type'', JString ''custom''),
              (''position'', JObject [(''x'', JNumber (fst (position n))),
                                      (''y'', JNumber (snd (position n)))]),
              (''data'', JObject [(''label'', JString (label n)), (''id'', JString (node_id n))]),
              (''selected'', JBool (node_selected n))]"

definition edge_to_json :: "edge \<Rightarrow> json" where
  "edge_to_json e =
     JObject [(''source'', JString (source e)), (''target'', JString (target e)),
              (''selected'', JBool (edge_selected e))]"

definition to_js_state :: "editor \<Rightarrow> js_state" where
  "to_js_state st =
     \<lparr>js_nodes = JArray (map node_to_json (cur_nodes st)),
      js_edges = JArray (map edge_to_json (cur_edges st)),
      js_nodeIdCounter = nodeIdCounter st\<rparr>"


lemma node_to_json_inj: "node_to_json a = node_to_json b \<Longrightarrow> a = b"
  by (cases a, cases b) (simp add: node_to_json_def prod_eq_iff)

lemma edge_to_json_inj: "edge_to_json a = edge_to_json b \<Longrightarrow> a = b"
  by (cases a, cases b) (simp add: edge_to_json_def)

lemma map_parseInt_id_objects:
  "\<exists>ids. map_parseInt_id parseInt (map node_to_json ns) = Inr ids \<and> length ids = length ns"
  by (induction ns) (auto simp: node_to_json_def)

text \<open>What the import handler does reject: unparsable text and a missing field.\<close>

lemma import_unparsable: "onImport parseInt None st = (st, Some invalid_file_toast)"
  by (simp add: onImport_def)

lemma import_missing_field:
  "map_of members ''nodes'' = None \<or> map_of members ''edges'' = None \<Longrightarrow>
     onImport parseInt (Some (JObject members)) st = (st, None)"
  by (auto simp: onImport_def split: option.splits)

text \<open>
  C4.  Importing \<open>{"nodes":[],"edges":"not-an-array"}\<close> is not rejected: both fields are
  truthy, so the handler replaces the nodes by the empty array and the edges by the
  string, sets the counter to \<open>-Infinity\<close> and reports success.  The state of any editor
  is changed by it.
\<close>

theorem import_accepts_non_array_edges:
  "onImport parseInt
     (Some (JObject [(''nodes'', JArray []), (''edges'', JString ''not-an-array'')])) st =
     (st\<lparr>js_nodes := JArray [], js_edges := JString ''not-an-array'',
         js_nodeIdCounter := NegInfinity\<rparr>, Some imported_toast) \<and>
   fst (onImport parseInt
     (Some (JObject [(''nodes'', JArray []), (''edges'', JString ''not-an-array'')]))
     (to_js_state ed)) \<noteq> to_js_state ed"
  by (simp add: onImport_def to_js_state_def)

text \<open>
  C6.  Importing the object that \<open>onExport\<close> wrote for a graph succeeds and leaves the
  editor with exactly the exported node and edge values, whatever it held before; the
  JSON form of a node determines its id, label, position and selection flag, and the
  JSON form of an edge its source, target and selection flag.
\<close>

theorem import_export_round_trip:
  "js_nodes (fst (onImport parseInt (Some (onExport graphName now (to_js_state g))) cur)) =
     JArray (map node_to_json (cur_nodes g)) \<and>
   js_edges (fst (onImport parseInt (Some (onExport graphName now (to_js_state g))) cur)) =
     JArray (map edge_to_json (cur_edges g)) \<and>
   snd (onImport parseInt (Some (onExport graphName now (to_js_state g))) cur) =
     Some imported_toast \<and>
   inj node_to_json \<and> inj edge_to_json"
proof -
  obtain ids where "map_parseInt_id parseInt (map node_to_json (cur_nodes g)) = Inr ids"
    using map_parseInt_id_objects by blast
  then have "onImport parseInt (Some (onExport graphName now (to_js_state g))) cur =
      (cur\<lparr>js_nodes := JArray (map node_to_json (cur_nodes g)),
           js_edges := JArray (map edge_to_json (cur_edges g)),
           js_nodeIdCounter := js_plus_one (Math_max ids)\<rparr>, Some imported_toast)"
    by (simp add: onImport_def onExport_def to_js_state_def)
  moreover have "inj node_to_json" by (rule injI) (rule node_to_json_inj)
  moreover have "inj edge_to_json" by (rule injI) (rule edge_to_json_inj)
  ultimately show ?thesis by simp
qed

section \<open>Layered layout\<close>

text \<open>
  Modelled from the spec: \<open>getLayoutedElements\<close> of \<open>utils/autoLayout\<close> is not among the
  sources, so the layout engine of this section follows the specification's words.  The
  direct predecessors of a node are the sources of the edges that end in it.
\<close>

definition predecessors :: "edge list \<Rightarrow> string \<Rightarrow> string list" where
  "predecessors edges n = map source (filter (\<lambda>edge. target edge = n) edges)"

text \<open>
  Modelled from the spec: the layer of a node is one more than the maximum layer of its
  direct predecessors, and 0 for a node without incoming edges.  The first argument
  bounds the depth of the recursion; \<open>None\<close> means that the depth is not resolved within
  the bound, which is what happens on a cycle.
\<close>

fun topo_depth :: "nat \<Rightarrow> edge list \<Rightarrow> string \<Rightarrow> nat option" where
  "topo_depth 0 edges n = None"
| "topo_depth (Suc fuel) edges n =
     (if predecessors edges n = [] then Some 0
      else case those (map (topo_depth fuel edges) (predecessors edges n)) of
             None \<Rightarrow> None
           | Some layers \<Rightarrow> Some (Suc (Max (set layers))))"

declare topo_depth.simps(2) [simp del]

text \<open>
  Modelled from the spec: the layer for nodes whose depth cannot be resolved is the
  current maximum layer plus one.
\<close>

definition terminal_layer :: "node list \<Rightarrow> edge list \<Rightarrow> nat" where
  "terminal_layer nodes edges =
     (let resolved = List.map_filter (\<lambda>node. topo_depth (length nodes) edges (node_id node)) nodes
      in if resolved = [] then 0 else Suc (Max (set resolved)))"

text \<open>
  Modelled from the spec: the layer of a node of the graph, with the recursion bounded by
  the number of nodes.
\<close>

definition layer_of :: "node list \<Rightarrow> edge list \<Rightarrow> string \<Rightarrow> nat" where
  "layer_of nodes edges n =
     (case topo_depth (length nodes) edges n of
        Some l \<Rightarrow> l
      | None \<Rightarrow> terminal_layer nodes edges)"

text \<open>
  Modelled from the spec: within a layer the nodes keep their relative order and are
  spaced by a fixed horizontal gap; layers are spaced by a fixed vertical gap.  The two
  gaps are arguments.
\<close>

fun place_nodes :: "real \<Rightarrow> real \<Rightarrow> (string \<Rightarrow> nat) \<Rightarrow> node list \<Rightarrow> node list \<Rightarrow> node list" where
  "place_nodes hgap vgap layer placed [] = []"
| "place_nodes hgap vgap layer placed (node # rest) =
     node\<lparr>position :=
            (hgap * real (length (filter (\<lambda>m. layer (node_id m) = layer (node_id node)) placed)),
             vgap * real (layer (node_id node)))\<rparr>
       # place_nodes hgap vgap layer (placed @ [node]) rest"

text \<open>
  Modelled from the spec: \<open>getLayoutedElements\<close> of \<open>utils/autoLayout\<close> is not among the
  sources.  Every node gets a new position from its layer; the edges are returned as they
  are.
\<close>

definition getLayoutedElements ::
  "real \<Rightarrow> real \<Rightarrow> node list \<Rightarrow> edge list \<Rightarrow> node list \<times> edge list" where
  "getLayoutedElements hgap vgap nodes edges =
     (place_nodes hgap vgap (layer_of nodes edges) [] nodes, edges)"


definition ancestors :: "edge list \<Rightarrow> string \<Rightarrow> string set" where
  "ancestors edges n = {m. (m, n) \<in> (edge_rel edges)\<^sup>+}"

lemma those_eq_Some: "those xs = Some ys \<longleftrightarrow> xs = map Some ys"
  by (induction xs arbitrary: ys) (auto split: option.splits)

lemma those_map_Some:
  "(\<forall>x\<in>set xs. \<exists>y. f x = Some y) \<Longrightarrow> \<exists>ys. those (map f xs) = Some ys"
  by (induction xs) auto

lemma predecessors_iff: "p \<in> set (predecessors edges n) \<longleftrightarrow> (p, n) \<in> edge_rel edges"
  by (auto simp: predecessors_def edge_rel_def)

lemma topo_depth_Suc:
  "topo_depth fuel edges n = Some l \<Longrightarrow> topo_depth (Suc fuel) edges n = Some l"
proof (induction fuel arbitrary: n l)
  case 0
  then show ?case by simp
next
  case (Suc fuel)
  show ?case
  proof (cases "predecessors edges n = []")
    case True
    with Suc.prems show ?thesis by (simp add: topo_depth.simps(2))
  next
    case False
    with Suc.prems obtain layers where
      ls: "those (map (topo_depth fuel edges) (predecessors edges n)) = Some layers"
      by (auto simp: topo_depth.simps(2) split: option.splits)
    then have m: "map (topo_depth fuel edges) (predecessors edges n) = map Some layers"
      by (simp add: those_eq_Some)
    have eq: "map (topo_depth (Suc fuel) edges) (predecessors edges n) =
        map (topo_depth fuel edges) (predecessors edges n)"
    proof (rule map_cong[OF refl])
      fix p assume p: "p \<in> set (predecessors edges n)"
      then have "topo_depth fuel edges p \<in> set (map Some layers)"
        unfolding m[symmetric] by simp
      then obtain lp where lp: "topo_depth fuel edges p = Some lp" by auto
      from Suc.IH[OF lp] lp show "topo_depth (Suc fuel) edges p = topo_depth fuel edges p"
        by simp
    qed
    have "topo_depth (Suc (Suc fuel)) edges n = topo_depth (Suc fuel) edges n"
      unfolding topo_depth.simps(2)[of "Suc fuel" edges n] topo_depth.simps(2)[of fuel edges n] eq ..
    with Suc.prems show ?thesis by simp
  qed
qed

lemma topo_depth_mono:
  "fuel \<le> fuel' \<Longrightarrow> topo_depth fuel edges n = Some l \<Longrightarrow> topo_depth fuel' edges n = Some l"
proof (induction rule: dec_induct)
  case base
  then show ?case .
next
  case (step k)
  then show ?case by (blast intro: topo_depth_Suc)
qed

lemma finite_ancestors: "finite (ancestors edges n)"
proof -
  have "ancestors edges n \<subseteq> source ` set edges"
  proof
    fix m assume "m \<in> ancestors edges n"
    then have "(m, n) \<in> (edge_rel edges)\<^sup>+" by (simp add: ancestors_def)
    then obtain z where "(m, z) \<in> edge_rel edges" by (meson tranclD)
    then show "m \<in> source ` set edges" by (auto simp: edge_rel_def)
  qed
  then show ?thesis by (rule finite_subset) simp
qed

lemma ancestors_predecessor:
  assumes "acyclic (edge_rel edges)" and "(p, n) \<in> edge_rel edges"
  shows "ancestors edges p \<subset> ancestors edges n"
proof -
  have "ancestors edges p \<subseteq> ancestors edges n"
    using assms(2) by (auto simp: ancestors_def intro: trancl_into_trancl)
  moreover have "p \<in> ancestors edges n" using assms(2) by (auto simp: ancestors_def)
  moreover have "p \<notin> ancestors edges p" using assms(1) by (auto simp: ancestors_def acyclic_def)
  ultimately show ?thesis by blast
qed

lemma topo_depth_resolves:
  assumes "acyclic (edge_rel edges)"
  shows "\<exists>l. topo_depth (Suc (card (ancestors edges n))) edges n = Some l"
proof (induction "card (ancestors edges n)" arbitrary: n rule: less_induct)
  case less
  show ?case
  proof (cases "predecessors edges n = []")
    case True
    then show ?thesis by (simp add: topo_depth.simps(2))
  next
    case False
    have "\<forall>p\<in>set (predecessors edges n).
        \<exists>l. topo_depth (card (ancestors edges n)) edges p = Some l"
    proof
      fix p assume "p \<in> set (predecessors edges n)"
      then have e: "(p, n) \<in> edge_rel edges" by (simp add: predecessors_iff)
      from ancestors_predecessor[OF assms e] finite_ancestors[of edges n]
      have c: "card (ancestors edges p) < card (ancestors edges n)"
        by (rule psubset_card_mono[rotated])
      from less[OF c] obtain l where
        "topo_depth (Suc (card (ancestors edges p))) edges p = Some l" by blast
      from topo_depth_mono[OF _ this, of "card (ancestors edges n)"] c
      show "\<exists>l. topo_depth (card (ancestors edges n)) edges p = Some l" by simp
    qed
    from those_map_Some[OF this] obtain layers where
      "those (map (topo_depth (card (ancestors edges n)) edges) (predecessors edges n)) = Some layers"
      by blast
    with False show ?thesis by (simp add: topo_depth.simps(2))
  qed
qed

lemma ancestors_bound:
  assumes "edges_reference_nodes nodes edges" and "acyclic (edge_rel edges)"
    and "n \<in> node_ids nodes"
  shows "card (ancestors edges n) < length nodes"
proof -
  have "ancestors edges n \<subseteq> node_ids nodes - {n}"
  proof
    fix m assume m: "m \<in> ancestors edges n"
    then have t: "(m, n) \<in> (edge_rel edges)\<^sup>+" by (simp add: ancestors_def)
    then obtain z where "(m, z) \<in> edge_rel edges" by (meson tranclD)
    with assms(1) have "m \<in> node_ids nodes"
      by (auto simp: edge_rel_def edges_reference_nodes_def)
    moreover from t assms(2) have "m \<noteq> n" by (auto simp: acyclic_def)
    ultimately show "m \<in> node_ids nodes - {n}" by simp
  qed
  moreover have fin: "finite (node_ids nodes)" by (simp add: node_ids_def)
  ultimately have "card (ancestors edges n) \<le> card (node_ids nodes - {n})"
    by (intro card_mono) auto
  also from assms(3) fin have "\<dots> < card (node_ids nodes)"
    by (intro psubset_card_mono) auto
  also have "\<dots> \<le> length nodes" unfolding node_ids_def by (metis card_image_le card_length le_trans List.finite_set)
  finally show ?thesis .
qed

lemma layer_of_resolved:
  assumes "edges_reference_nodes nodes edges" and "acyclic (edge_rel edges)"
    and "n \<in> node_ids nodes"
  shows "topo_depth (length nodes) edges n = Some (layer_of nodes edges n)"
proof -
  from topo_depth_resolves[OF assms(2), of n] obtain l where
    "topo_depth (Suc (card (ancestors edges n))) edges n = Some l" by blast
  from topo_depth_mono[OF _ this, of "length nodes"] ancestors_bound[OF assms]
  have "topo_depth (length nodes) edges n = Some l" by simp
  then show ?thesis by (simp add: layer_of_def)
qed

lemma layer_of_rec:
  assumes wf: "edges_reference_nodes nodes edges" and ac: "acyclic (edge_rel edges)"
    and n: "n \<in> node_ids nodes"
  shows "layer_of nodes edges n =
     (if predecessors edges n = [] then 0
      else Suc (Max (layer_of nodes edges ` set (predecessors edges n))))"
proof -
  from ancestors_bound[OF assms] obtain fuel where f: "length nodes = Suc fuel"
    by (cases "length nodes") auto
  note r = layer_of_resolved[OF assms]
  show ?thesis
  proof (cases "predecessors edges n = []")
    case True
    with r f show ?thesis by (simp add: topo_depth.simps(2))
  next
    case False
    with r f obtain layers where
      ls: "those (map (topo_depth fuel edges) (predecessors edges n)) = Some layers"
      and l: "layer_of nodes edges n = Suc (Max (set layers))"
      by (auto simp: topo_depth.simps(2) split: option.splits)
    from ls have m: "map (topo_depth fuel edges) (predecessors edges n) = map Some layers"
      by (simp add: those_eq_Some)
    have "map (\<lambda>p. the (topo_depth fuel edges p)) (predecessors edges n) =
        map (layer_of nodes edges) (predecessors edges n)"
    proof (rule map_cong[OF refl])
      fix p assume p: "p \<in> set (predecessors edges n)"
      then have "topo_depth fuel edges p \<in> set (map Some layers)"
        unfolding m[symmetric] by simp
      then obtain lp where lp: "topo_depth fuel edges p = Some lp" by auto
      from topo_depth_Suc[OF this] f have "topo_depth (length nodes) edges p = Some lp" by simp
      then have "layer_of nodes edges p = lp" by (simp add: layer_of_def)
      with lp show "the (topo_depth fuel edges p) = layer_of nodes edges p" by simp
    qed
    moreover have "map (\<lambda>p. the (topo_depth fuel edges p)) (predecessors edges n) =
        map the (map (topo_depth fuel edges) (predecessors edges n))" by (simp add: comp_def)
    moreover have "map the (map Some layers) = layers" by (simp add: comp_def)
    ultimately have "map (layer_of nodes edges) (predecessors edges n) = layers"
      using m by simp
    then have "set layers = layer_of nodes edges ` set (predecessors edges n)" by auto
    with l False show ?thesis by simp
  qed
qed

lemma layer_of_edge:
  assumes wf: "edges_reference_nodes nodes edges" and ac: "acyclic (edge_rel edges)"
    and e: "(a, b) \<in> edge_rel edges"
  shows "layer_of nodes edges a < layer_of nodes edges b"
proof -
  from e wf have b: "b \<in> node_ids nodes"
    by (auto simp: edge_rel_def edges_reference_nodes_def)
  from e have p: "a \<in> set (predecessors edges b)" by (simp add: predecessors_iff)
  then have le: "layer_of nodes edges a \<le> Max (layer_of nodes edges ` set (predecessors edges b))"
    by (intro Max_ge) auto
  from p have "predecessors edges b \<noteq> []" by auto
  with layer_of_rec[OF wf ac b]
  have "layer_of nodes edges b = Suc (Max (layer_of nodes edges ` set (predecessors edges b)))"
    by simp
  with le show ?thesis by simp
qed

lemma layer_of_path:
  assumes wf: "edges_reference_nodes nodes edges" and ac: "acyclic (edge_rel edges)"
    and p: "(a, b) \<in> (edge_rel edges)\<^sup>*"
  shows "layer_of nodes edges a \<le> layer_of nodes edges b"
  using p
proof (induction rule: rtrancl_induct)
  case base
  show ?case by simp
next
  case (step y z)
  with layer_of_edge[OF wf ac step.hyps(2)] show ?case by simp
qed

lemma layer_of_strict_path:
  assumes wf: "edges_reference_nodes nodes edges" and ac: "acyclic (edge_rel edges)"
    and p: "(a, b) \<in> (edge_rel edges)\<^sup>+"
  shows "layer_of nodes edges a < layer_of nodes edges b"
  using p
proof (induction rule: trancl_induct)
  case (base y)
  then show ?case by (rule layer_of_edge[OF wf ac])
next
  case (step y z)
  with layer_of_edge[OF wf ac step.hyps(2)] show ?case by simp
qed

lemma place_nodes_ids:
  "map node_id (place_nodes hgap vgap layer placed ns) = map node_id ns"
  by (induction ns arbitrary: placed) simp_all

lemma place_nodes_y:
  "map (\<lambda>node. snd (position node)) (place_nodes hgap vgap layer placed ns) =
     map (\<lambda>node. vgap * real (layer (node_id node))) ns"
  by (induction ns arbitrary: placed) simp_all


lemma place_nodes_length: "length (place_nodes hgap vgap layer placed ns) = length ns"
  by (induction ns arbitrary: placed) simp_all

lemma place_nodes_y_nth:
  assumes "i < length ns"
  shows "snd (position (place_nodes hgap vgap layer placed ns ! i)) =
     vgap * real (layer (node_id (ns ! i)))"
proof -
  have "map (\<lambda>node. snd (position node)) (place_nodes hgap vgap layer placed ns) ! i =
      map (\<lambda>node. vgap * real (layer (node_id node))) ns ! i"
    by (simp only: place_nodes_y)
  with assms show ?thesis by (simp add: place_nodes_length)
qed

definition layout_example :: editor where
  "layout_example =
     \<lparr>cur_nodes = [mk_node ''1'', mk_node ''2'', mk_node ''3''],
      cur_edges = [mk_edge ''1'' ''2'', mk_edge ''2'' ''3'', mk_edge ''1'' ''3''],
      nodeIdCounter = Num 4\<rparr>"

text \<open>
  C9.  For a valid DAG (every edge references present nodes, no directed cycle) the layout
  keeps the nodes and their order, gives every node the y-coordinate of its layer, and
  the y-coordinate does not decrease along any directed path (the layer index grows
  strictly along every edge); the layer of a node is 0 when it has no incoming edge and
  otherwise one more than the maximum layer of its direct predecessors.
\<close>

theorem autoLayout_layers_monotone:
  assumes "edges_reference_nodes (cur_nodes st) (cur_edges st)"
    and "acyclic (edge_rel (cur_edges st))"
    and "0 \<le> vgap"
  shows
    "map node_id (cur_nodes (onAutoLayout (getLayoutedElements hgap vgap) st)) =
       map node_id (cur_nodes st) \<and>
     cur_edges (onAutoLayout (getLayoutedElements hgap vgap) st) = cur_edges st \<and>
     (\<forall>i < length (cur_nodes st).
        snd (position (cur_nodes (onAutoLayout (getLayoutedElements hgap vgap) st) ! i)) =
          vgap * real (layer_of (cur_nodes st) (cur_edges st) (node_id (cur_nodes st ! i)))) \<and>
     (\<forall>i < length (cur_nodes st). \<forall>j < length (cur_nodes st).
        (node_id (cur_nodes st ! i), node_id (cur_nodes st ! j)) \<in> (edge_rel (cur_edges st))\<^sup>* \<longrightarrow>
        snd (position (cur_nodes (onAutoLayout (getLayoutedElements hgap vgap) st) ! i)) \<le>
        snd (position (cur_nodes (onAutoLayout (getLayoutedElements hgap vgap) st) ! j))) \<and>
     (\<forall>a b. (a, b) \<in> (edge_rel (cur_edges st))\<^sup>+ \<longrightarrow>
        layer_of (cur_nodes st) (cur_edges st) a < layer_of (cur_nodes st) (cur_edges st) b) \<and>
     (\<forall>n \<in> node_ids (cur_nodes st).
        layer_of (cur_nodes st) (cur_edges st) n =
          (if predecessors (cur_edges st) n = [] then 0
           else Suc (Max (layer_of (cur_nodes st) (cur_edges st) `
                            set (predecessors (cur_edges st) n)))))"
proof -
  let ?nodes = "cur_nodes st" and ?edges = "cur_edges st"
  let ?st' = "onAutoLayout (getLayoutedElements hgap vgap) st"
  have n': "cur_nodes ?st' = place_nodes hgap vgap (layer_of ?nodes ?edges) [] ?nodes"
    and e': "cur_edges ?st' = ?edges"
    by (simp_all add: onAutoLayout_def getLayoutedElements_def)
  have ids: "map node_id (cur_nodes ?st') = map node_id ?nodes"
    unfolding n' by (rule place_nodes_ids)
  have y: "snd (position (cur_nodes ?st' ! i)) =
      vgap * real (layer_of ?nodes ?edges (node_id (?nodes ! i)))"
    if "i < length ?nodes" for i
    unfolding n' using that by (rule place_nodes_y_nth)
  have mono: "snd (position (cur_nodes ?st' ! i)) \<le> snd (position (cur_nodes ?st' ! j))"
    if "i < length ?nodes" "j < length ?nodes"
      and "(node_id (?nodes ! i), node_id (?nodes ! j)) \<in> (edge_rel ?edges)\<^sup>*" for i j
  proof -
    from layer_of_path[OF assms(1,2) that(3)]
    have "real (layer_of ?nodes ?edges (node_id (?nodes ! i))) \<le>
        real (layer_of ?nodes ?edges (node_id (?nodes ! j)))" by simp
    with assms(3) show ?thesis
      unfolding y[OF that(1)] y[OF that(2)] by (rule mult_left_mono[rotated])
  qed
  have rec: "layer_of ?nodes ?edges n =
      (if predecessors ?edges n = [] then 0
       else Suc (Max (layer_of ?nodes ?edges ` set (predecessors ?edges n))))"
    if "n \<in> node_ids ?nodes" for n
    using assms(1,2) that by (rule layer_of_rec)
  have strict: "layer_of ?nodes ?edges a < layer_of ?nodes ?edges b"
    if "(a, b) \<in> (edge_rel ?edges)\<^sup>+" for a b
    using assms(1,2) that by (rule layer_of_strict_path)
  from ids e' y mono strict rec show ?thesis by blast
qed

theorem autoLayout_layers_monotone_witness:
  "edges_reference_nodes (cur_nodes layout_example) (cur_edges layout_example) \<and>
   acyclic (edge_rel (cur_edges layout_example)) \<and>
   map (layer_of (cur_nodes layout_example) (cur_edges layout_example)) [''1'', ''2'', ''3''] =
     [0, 1, 2] \<and>
   snd (position (cur_nodes (onAutoLayout (getLayoutedElements 10 20) layout_example) ! 0)) \<le>
   snd (position (cur_nodes (onAutoLayout (getLayoutedElements 10 20) layout_example) ! 2))"
proof -
  have wf: "edges_reference_nodes (cur_nodes layout_example) (cur_edges layout_example)"
    by (simp add: layout_example_def edges_reference_nodes_def node_ids_def mk_node_def
        mk_edge_def)
  have "\<not> hasCycle (cur_nodes layout_example) (cur_edges layout_example)" by code_simp
  with wf have ac: "acyclic (edge_rel (cur_edges layout_example))"
    by (simp add: hasCycle_well_formed)
  have layers: "map (layer_of (cur_nodes layout_example) (cur_edges layout_example))
      [''1'', ''2'', ''3''] = [0, 1, 2]" by code_simp
  have "(''1'', ''3'') \<in> edge_rel (cur_edges layout_example)"
    by (simp add: layout_example_def edge_rel_def mk_edge_def)
  then have path: "(node_id (cur_nodes layout_example ! 0), node_id (cur_nodes layout_example ! 2))
      \<in> (edge_rel (cur_edges layout_example))\<^sup>*"
    by (simp add: layout_example_def mk_node_def)
  have len: "length (cur_nodes layout_example) = 3" by (simp add: layout_example_def)
  have i0: "0 < length (cur_nodes layout_example)" and i2: "2 < length (cur_nodes layout_example)"
    using len by simp_all
  have gap: "(0::real) \<le> 20" by simp
  from autoLayout_layers_monotone[OF wf ac gap, of 10] i0 i2 path
  have "snd (position (cur_nodes (onAutoLayout (getLayoutedElements 10 20) layout_example) ! 0)) \<le>
   snd (position (cur_nodes (onAutoLayout (getLayoutedElements 10 20) layout_example) ! 2))"
    by blast
  with wf ac layers show ?thesis by blast
qed

end
